theory Spec2Isabelle
  imports Main "HOL-Library.Word"
begin

unbundle bit_operations_syntax

section \<open>Text, bytes and exceptions\<close>

text \<open>
  A Python \<open>str\<close> is a sequence of Unicode code points, and so is a value of an SQLite
  \<open>TEXT\<close> column; both are modelled as lists of code points. Slicing (\<open>s[:200]\<close>)
  counts code points, and SQLite's default (binary) collation orders texts by their UTF-8
  bytes, which is the order of the code points.
\<close>

type_synonym str = "nat list"
type_synonym byte = "8 word"
type_synonym u32 = "32 word"

text \<open>The exceptions that the modelled functions can raise.\<close>

datatype error =
  UnicodeEncodeError | IntegrityError | OperationalError | OverflowError | ValueError

text \<open>A string literal of the source, as text.\<close>

definition lit :: "string \<Rightarrow> str" where
  "lit s = map of_char s"

text \<open>\<open>s.startswith(p)\<close>.\<close>

definition startswith :: "str \<Rightarrow> str \<Rightarrow> bool" where
  "startswith s p = (take (length p) s = p)"

text \<open>
  \<open>s.encode()\<close>: UTF-8. A lone surrogate (U+D800 to U+DFFF) cannot be encoded and raises
  \<open>UnicodeEncodeError\<close>; values from \<open>0x110000\<close> on are no code points and are rejected
  the same way.
\<close>

definition utf8_char :: "nat \<Rightarrow> byte list option" where
  "utf8_char c =
     (if c < 0x80 then Some [of_nat c]
      else if c < 0x800 then Some [of_nat (0xC0 + c div 64), of_nat (0x80 + c mod 64)]
      else if 0xD800 \<le> c \<and> c \<le> 0xDFFF then None
      else if c < 0x10000 then
        Some [of_nat (0xE0 + c div 4096), of_nat (0x80 + c div 64 mod 64),
              of_nat (0x80 + c mod 64)]
      else if c < 0x110000 then
        Some [of_nat (0xF0 + c div 262144), of_nat (0x80 + c div 4096 mod 64),
              of_nat (0x80 + c div 64 mod 64), of_nat (0x80 + c mod 64)]
      else None)"

fun encode :: "str \<Rightarrow> error + byte list" where
  "encode [] = Inr []"
| "encode (c # cs) =
     (case utf8_char c of
        None \<Rightarrow> Inl UnicodeEncodeError
      | Some bs \<Rightarrow> (case encode cs of Inl e \<Rightarrow> Inl e | Inr rest \<Rightarrow> Inr (bs @ rest)))"

text \<open>The texts that UTF-8 can encode: every code point is a Unicode scalar value.\<close>

definition scalar_value :: "nat \<Rightarrow> bool" where
  "scalar_value c = (c < 0x110000 \<and> \<not> (0xD800 \<le> c \<and> c \<le> 0xDFFF))"

definition encodable :: "str \<Rightarrow> bool" where
  "encodable s = list_all scalar_value s"

section \<open>SHA-256 (\<open>hashlib.sha256\<close>)\<close>

text \<open>
  The hash function of FIPS 180-4 on a list of bytes: the round constants (four words to
  a row), the initial hash value, the six logical functions, padding, the message
  schedule and the compression of each 64-byte block.
\<close>

definition sha_K :: "u32 list" where
  "sha_K = concat
     [[0x428a2f98, 0x71374491, 0xb5c0fbcf, 0xe9b5dba5],
      [0x3956c25b, 0x59f111f1, 0x923f82a4, 0xab1c5ed5],
      [0xd807aa98, 0x12835b01, 0x243185be, 0x550c7dc3],
      [0x72be5d74, 0x80deb1fe, 0x9bdc06a7, 0xc19bf174],
      [0xe49b69c1, 0xefbe4786, 0x0fc19dc6, 0x240ca1cc],
      [0x2de92c6f, 0x4a7484aa, 0x5cb0a9dc, 0x76f988da],
      [0x983e5152, 0xa831c66d, 0xb00327c8, 0xbf597fc7],
      [0xc6e00bf3, 0xd5a79147, 0x06ca6351, 0x14292967],
      [0x27b70a85, 0x2e1b2138, 0x4d2c6dfc, 0x53380d13],
      [0x650a7354, 0x766a0abb, 0x81c2c92e, 0x92722c85],
      [0xa2bfe8a1, 0xa81a664b, 0xc24b8b70, 0xc76c51a3],
      [0xd192e819, 0xd6990624, 0xf40e3585, 0x106aa070],
      [0x19a4c116, 0x1e376c08, 0x2748774c, 0x34b0bcb5],
      [0x391c0cb3, 0x4ed8aa4a, 0x5b9cca4f, 0x682e6ff3],
      [0x748f82ee, 0x78a5636f, 0x84c87814, 0x8cc70208],
      [0x90befffa, 0xa4506ceb, 0xbef9a3f7, 0xc67178f2]]"

definition sha_H0 :: "u32 list" where
  "sha_H0 =
     [0x6a09e667, 0xbb67ae85, 0x3c6ef372, 0xa54ff53a] @
     [0x510e527f, 0x9b05688c, 0x1f83d9ab, 0x5be0cd19]"

definition Ch :: "u32 \<Rightarrow> u32 \<Rightarrow> u32 \<Rightarrow> u32" where
  "Ch x y z = (x AND y) XOR (NOT x AND z)"

definition Maj :: "u32 \<Rightarrow> u32 \<Rightarrow> u32 \<Rightarrow> u32" where
  "Maj x y z = (x AND y) XOR (x AND z) XOR (y AND z)"

definition Sigma0 :: "u32 \<Rightarrow> u32" where
  "Sigma0 x = word_rotr 2 x XOR word_rotr 13 x XOR word_rotr 22 x"

definition Sigma1 :: "u32 \<Rightarrow> u32" where
  "Sigma1 x = word_rotr 6 x XOR word_rotr 11 x XOR word_rotr 25 x"

definition sigma0 :: "u32 \<Rightarrow> u32" where
  "sigma0 x = word_rotr 7 x XOR word_rotr 18 x XOR drop_bit 3 x"

definition sigma1 :: "u32 \<Rightarrow> u32" where
  "sigma1 x = word_rotr 17 x XOR word_rotr 19 x XOR drop_bit 10 x"

text \<open>Padding: a \<open>1\<close> bit, zeros, and the length of the message in bits on 64 bits.\<close>

definition be_bytes :: "nat \<Rightarrow> nat \<Rightarrow> byte list" where
  "be_bytes k n = map (\<lambda>i. of_nat (n div 256 ^ (k - 1 - i))) [0..<k]"

definition sha_pad :: "byte list \<Rightarrow> byte list" where
  "sha_pad m =
     m @ [0x80] @ replicate ((64 - (length m + 9) mod 64) mod 64) 0 @ be_bytes 8 (8 * length m)"

definition be_word :: "byte list \<Rightarrow> u32" where
  "be_word bs = foldl (\<lambda>w b. push_bit 8 w OR ucast b) 0 bs"

definition chunks :: "nat \<Rightarrow> 'a list \<Rightarrow> 'a list list" where
  "chunks k xs = map (\<lambda>i. take k (drop (k * i) xs)) [0..<length xs div k]"

text \<open>The message schedule: 16 words of the block, extended to 64.\<close>

fun sha_extend :: "nat \<Rightarrow> u32 list \<Rightarrow> u32 list" where
  "sha_extend 0 w = w"
| "sha_extend (Suc n) w =
     (let t = length w in
      sha_extend n (w @ [sigma1 (w ! (t - 2)) + w ! (t - 7) + sigma0 (w ! (t - 15)) + w ! (t - 16)]))"

definition schedule :: "byte list \<Rightarrow> u32 list" where
  "schedule block = sha_extend 48 (map be_word (chunks 4 block))"

fun sha_round :: "u32 list \<Rightarrow> u32 \<times> u32 \<Rightarrow> u32 list" where
  "sha_round [a, b, c, d, e, f, g, h] (k, w) =
     (let t1 = h + Sigma1 e + Ch e f g + k + w;
          t2 = Sigma0 a + Maj a b c
      in [t1 + t2, a, b, c, d + t1, e, f, g])"
| "sha_round v _ = v"

definition compress :: "u32 list \<Rightarrow> byte list \<Rightarrow> u32 list" where
  "compress hs block = map2 (+) hs (foldl sha_round hs (zip sha_K (schedule block)))"

definition sha256 :: "byte list \<Rightarrow> byte list" where
  "sha256 m = concat (map (\<lambda>w. be_bytes 4 (unat w)) (foldl compress sha_H0 (chunks 64 (sha_pad m))))"

text \<open>\<open>hexdigest()\<close>: two lower-case hexadecimal digits for each byte.\<close>

definition hexdigit :: "nat \<Rightarrow> nat" where
  "hexdigit n = (if n < 10 then 48 + n else 87 + n)"

definition hexlify :: "byte list \<Rightarrow> str" where
  "hexlify bs = concat (map (\<lambda>b. [hexdigit (unat b div 16), hexdigit (unat b mod 16)]) bs)"

section \<open>Dates and times (\<open>datetime\<close>)\<close>

text \<open>
  A naive \<open>datetime\<close> is its fields. The type keeps them in range (\<open>valid_datetime\<close>):
  years 1 to 9999 of the proleptic Gregorian calendar, microsecond resolution.
  \<open>datetime.utcnow()\<close> is an argument \<open>now\<close> of every operation that reads the clock.
\<close>

record datetime =
  year :: nat
  month :: nat
  day :: nat
  hour :: nat
  minute :: nat
  second :: nat
  microsecond :: nat

text \<open>\<open>datetime(y, m, d, h, mi, s, us)\<close> with fields that are in range.\<close>

definition mk_datetime :: "nat \<Rightarrow> nat \<Rightarrow> nat \<Rightarrow> nat \<Rightarrow> nat \<Rightarrow> nat \<Rightarrow> nat \<Rightarrow> datetime" where
  "mk_datetime y m d h mi s us =
     \<lparr>year = y, month = m, day = d, hour = h, minute = mi, second = s, microsecond = us\<rparr>"

definition is_leap :: "nat \<Rightarrow> bool" where
  "is_leap y = (y mod 4 = 0 \<and> (y mod 100 \<noteq> 0 \<or> y mod 400 = 0))"

definition days_in_month :: "nat \<Rightarrow> nat \<Rightarrow> nat" where
  "days_in_month y m =
     (if m = 2 then (if is_leap y then 29 else 28)
      else if m = 4 \<or> m = 6 \<or> m = 9 \<or> m = 11 then 30 else 31)"

definition valid_datetime :: "datetime \<Rightarrow> bool" where
  "valid_datetime d =
     (1 \<le> year d \<and> year d \<le> 9999 \<and> 1 \<le> month d \<and> month d \<le> 12 \<and>
      1 \<le> day d \<and> day d \<le> days_in_month (year d) (month d) \<and>
      hour d < 24 \<and> minute d < 60 \<and> second d < 60 \<and> microsecond d < 1000000)"

text \<open>\<open>a < b\<close> on datetimes compares the fields in order.\<close>

definition dt_less :: "datetime \<Rightarrow> datetime \<Rightarrow> bool" where
  "dt_less a b =
     (year a < year b \<or> year a = year b \<and>
     (month a < month b \<or> month a = month b \<and>
     (day a < day b \<or> day a = day b \<and>
     (hour a < hour b \<or> hour a = hour b \<and>
     (minute a < minute b \<or> minute a = minute b \<and>
     (second a < second b \<or> second a = second b \<and>
      microsecond a < microsecond b))))))"

text \<open>
  \<open>d + timedelta(days=n)\<close> and \<open>d - timedelta(days=n)\<close>: the date moves by \<open>n\<close> days of
  the calendar, the time of day stays; a result before year 1 or after year 9999 raises
  \<open>OverflowError\<close>.
\<close>

definition next_day :: "datetime \<Rightarrow> datetime option" where
  "next_day d =
     (if day d < days_in_month (year d) (month d) then Some (d\<lparr>day := day d + 1\<rparr>)
      else if month d < 12 then Some (d\<lparr>month := month d + 1, day := 1\<rparr>)
      else if year d < 9999 then Some (d\<lparr>year := year d + 1, month := 1, day := 1\<rparr>)
      else None)"

definition prev_day :: "datetime \<Rightarrow> datetime option" where
  "prev_day d =
     (if 1 < day d then Some (d\<lparr>day := day d - 1\<rparr>)
      else if 1 < month d then
        Some (d\<lparr>month := month d - 1, day := days_in_month (year d) (month d - 1)\<rparr>)
      else if 1 < year d then Some (d\<lparr>year := year d - 1, month := 12, day := 31\<rparr>)
      else None)"

fun add_days :: "nat \<Rightarrow> datetime \<Rightarrow> error + datetime" where
  "add_days 0 d = Inr d"
| "add_days (Suc n) d =
     (case next_day d of None \<Rightarrow> Inl OverflowError | Some d' \<Rightarrow> add_days n d')"

fun sub_days :: "nat \<Rightarrow> datetime \<Rightarrow> error + datetime" where
  "sub_days 0 d = Inr d"
| "sub_days (Suc n) d =
     (case prev_day d of None \<Rightarrow> Inl OverflowError | Some d' \<Rightarrow> sub_days n d')"

text \<open>
  \<open>d.isoformat()\<close>: \<open>YYYY-MM-DDTHH:MM:SS\<close>, followed by \<open>.ffffff\<close> unless the
  microseconds are zero. \<open>zpad w n\<close> is \<open>n\<close> in decimal on \<open>w\<close> digits with leading
  zeros; the fields of a datetime fit their widths.
\<close>

fun zpad :: "nat \<Rightarrow> nat \<Rightarrow> str" where
  "zpad 0 n = []"
| "zpad (Suc w) n = zpad w (n div 10) @ [48 + n mod 10]"

definition isoformat :: "datetime \<Rightarrow> str" where
  "isoformat d =
     zpad 4 (year d) @ [45] @ zpad 2 (month d) @ [45] @ zpad 2 (day d) @ [84] @
     zpad 2 (hour d) @ [58] @ zpad 2 (minute d) @ [58] @ zpad 2 (second d) @
     (if microsecond d = 0 then [] else [46] @ zpad 6 (microsecond d))"

text \<open>
  \<open>datetime.fromisoformat(s)\<close>, for the two shapes that \<open>isoformat\<close> writes (19 and 26
  characters); any other text is a \<open>ValueError\<close> here. The operations below only parse
  what they stored with \<open>isoformat\<close>.
\<close>

definition is_digit :: "nat \<Rightarrow> bool" where
  "is_digit c = (48 \<le> c \<and> c \<le> 57)"

definition dec :: "str \<Rightarrow> nat option" where
  "dec cs = (if list_all is_digit cs then Some (foldl (\<lambda>a c. 10 * a + (c - 48)) 0 cs) else None)"

definition fromisoformat :: "str \<Rightarrow> error + datetime" where
  "fromisoformat s =
     (if (length s = 19 \<or> length s = 26 \<and> s ! 19 = 46) \<and>
         s ! 4 = 45 \<and> s ! 7 = 45 \<and> s ! 10 = 84 \<and> s ! 13 = 58 \<and> s ! 16 = 58
      then
        (case (dec (take 4 s), dec (take 2 (drop 5 s)), dec (take 2 (drop 8 s)),
               dec (take 2 (drop 11 s)), dec (take 2 (drop 14 s)), dec (take 2 (drop 17 s)),
               dec (drop 20 s)) of
           (Some y, Some mo, Some dd, Some h, Some mi, Some sec, Some us) \<Rightarrow>
             (let d = \<lparr>year = y, month = mo, day = dd, hour = h, minute = mi, second = sec,
                       microsecond = us\<rparr>
              in if valid_datetime d then Inr d else Inl ValueError)
         | _ \<Rightarrow> Inl ValueError)
      else Inl ValueError)"

text \<open>
  The order of SQLite's \<open><\<close> on two \<open>TEXT\<close> values (binary collation): the first
  differing character decides, and a proper prefix is smaller.
\<close>

fun text_less :: "str \<Rightarrow> str \<Rightarrow> bool" where
  "text_less [] [] = False"
| "text_less [] (y # ys) = True"
| "text_less (x # xs) [] = False"
| "text_less (x # xs) (y # ys) = (x < y \<or> x = y \<and> text_less xs ys)"

section \<open>Random tokens (\<open>secrets.token_urlsafe\<close>)\<close>

text \<open>
  The bytes of the operating system's random source are an argument \<open>rnd\<close>: byte
  \<open>i\<close> of a request is \<open>rnd i\<close>. \<open>token_urlsafe(n)\<close> is the URL-safe Base64 text of
  \<open>n\<close> such bytes with the padding \<open>=\<close> stripped.
\<close>

definition token_bytes :: "(nat \<Rightarrow> byte) \<Rightarrow> nat \<Rightarrow> byte list" where
  "token_bytes rnd n = map rnd [0..<n]"

definition b64char :: "nat \<Rightarrow> nat" where
  "b64char i =
     (if i < 26 then 65 + i else if i < 52 then 71 + i else if i < 62 then i - 4
      else if i = 62 then 45 else 95)"

fun urlsafe_b64encode :: "byte list \<Rightarrow> str" where
  "urlsafe_b64encode (a # b # c # rest) =
     [b64char (unat a div 4), b64char (unat a mod 4 * 16 + unat b div 16),
      b64char (unat b mod 16 * 4 + unat c div 64), b64char (unat c mod 64)]
     @ urlsafe_b64encode rest"
| "urlsafe_b64encode [a, b] =
     [b64char (unat a div 4), b64char (unat a mod 4 * 16 + unat b div 16),
      b64char (unat b mod 16 * 4), 61]"
| "urlsafe_b64encode [a] = [b64char (unat a div 4), b64char (unat a mod 4 * 16), 61, 61]"
| "urlsafe_b64encode [] = []"

definition rstrip :: "nat \<Rightarrow> str \<Rightarrow> str" where
  "rstrip c s = rev (dropWhile (\<lambda>x. x = c) (rev s))"

definition token_urlsafe :: "(nat \<Rightarrow> byte) \<Rightarrow> nat \<Rightarrow> str" where
  "token_urlsafe rnd n = rstrip 61 (urlsafe_b64encode (token_bytes rnd n))"

section \<open>The database\<close>

text \<open>
  The two tables that \<open>init_database\<close> creates. \<open>tokens(hash TEXT PRIMARY KEY,
  created_at TEXT, expires_at TEXT)\<close> and \<open>logins(id INTEGER PRIMARY KEY AUTOINCREMENT,
  token_hash TEXT, ip_address TEXT, user_agent TEXT, timestamp TEXT)\<close>; a table is the
  list of its rows in insertion order. There is no other table.
\<close>

record token_row =
  hash :: str
  created_at :: str
  expires_at :: str

record login_row =
  login_id :: nat
  token_hash :: str
  ip_address :: str
  user_agent :: str
  timestamp :: str

text \<open>The four SQL statements of the source, with the parameters bound to them.\<close>

datatype sql =
    InsertToken str str str
  | SelectExpires str
  | InsertLogin str str str str
  | DeleteLogins str

text \<open>What a function does with the database, in order.\<close>

datatype db_op = Connect | Execute sql | Commit | Close

text \<open>
  The state of the database file: the two tables, the \<open>AUTOINCREMENT\<close> counter of
  \<open>logins\<close>, and the journal of every access made to it. The counter \<open>logins_seq\<close> is
  the largest id that the logins table has ever held (SQLite keeps it in
  \<open>sqlite_sequence\<close>); deleting rows does not lower it. Failures of the storage medium
  (disk, permissions, a missing table) are not modelled.
\<close>

record store =
  tokens :: "token_row list"
  logins :: "login_row list"
  logins_seq :: nat
  journal :: "db_op list"

type_synonym 'a outcome = "(error + 'a) \<times> store"

text \<open>
  The largest id of a row: ids are signed 64-bit integers, so \<open>2^63 - 1\<close>.
\<close>

definition max_rowid :: nat where
  "max_rowid = 9223372036854775807"

definition logged :: "db_op \<Rightarrow> store \<Rightarrow> store" where
  "logged ev s = s\<lparr>journal := journal s @ [ev]\<rparr>"

text \<open>\<open>init_database\<close> on a new file: both tables exist and are empty.\<close>

definition init_database :: store where
  "init_database = \<lparr>tokens = [], logins = [], logins_seq = 0, journal = []\<rparr>"

definition params :: "sql \<Rightarrow> str list" where
  "params q =
     (case q of
        InsertToken h c e \<Rightarrow> [h, c, e]
      | SelectExpires h \<Rightarrow> [h]
      | InsertLogin h ip ua ts \<Rightarrow> [h, ip, ua, ts]
      | DeleteLogins cutoff \<Rightarrow> [cutoff])"

text \<open>
  The effect of a statement on the tables and the rows it returns. Inserting a second
  token row with the same primary key raises \<open>IntegrityError\<close>. A new login row gets
  the id after the largest the table has ever held; once that is \<open>max_rowid\<close> there is
  no id left, and the insert raises \<open>OperationalError\<close> (SQLite's \<open>SQLITE_FULL\<close>) and
  stores nothing.
\<close>

fun run_sql :: "sql \<Rightarrow> store \<Rightarrow> error + (str list list \<times> store)" where
  "run_sql (InsertToken h c e) s =
     (if h \<in> set (map hash (tokens s)) then Inl IntegrityError
      else Inr ([], s\<lparr>tokens := tokens s @ [\<lparr>hash = h, created_at = c, expires_at = e\<rparr>]\<rparr>))"
| "run_sql (SelectExpires h) s =
     Inr (map (\<lambda>r. [expires_at r]) (filter (\<lambda>r. hash r = h) (tokens s)), s)"
| "run_sql (InsertLogin h ip ua ts) s =
     (if max_rowid \<le> logins_seq s then Inl OperationalError
      else Inr ([], s\<lparr>logins := logins s @
                      [\<lparr>login_id = Suc (logins_seq s), token_hash = h, ip_address = ip,
                        user_agent = ua, timestamp = ts\<rparr>],
                    logins_seq := Suc (logins_seq s)\<rparr>))"
| "run_sql (DeleteLogins cutoff) s =
     Inr ([], s\<lparr>logins := filter (\<lambda>r. \<not> text_less (timestamp r) cutoff) (logins s)\<rparr>)"

text \<open>
  \<open>conn.execute(statement, parameters)\<close>: binding a text that UTF-8 cannot encode raises
  \<open>UnicodeEncodeError\<close> before the statement runs.
\<close>

definition execute :: "sql \<Rightarrow> store \<Rightarrow> str list list outcome" where
  "execute q s =
     (let s' = logged (Execute q) s in
      if \<not> list_all encodable (params q) then (Inl UnicodeEncodeError, s')
      else (case run_sql q s' of
              Inl e \<Rightarrow> (Inl e, s')
            | Inr (rows, s'') \<Rightarrow> (Inr rows, s'')))"

section \<open>The credential store\<close>

text \<open>\<open>hash_token\<close>: \<open>hashlib.sha256(token.encode()).hexdigest()\<close>.\<close>

definition hash_token :: "str \<Rightarrow> error + str" where
  "hash_token token =
     (case encode token of Inl e \<Rightarrow> Inl e | Inr bs \<Rightarrow> Inr (hexlify (sha256 bs)))"

text \<open>
  \<open>generate_token\<close>. The connection is opened before the clock is read; an exception
  leaves the function at once (nothing is committed or closed).
\<close>

definition generate_token :: "store \<Rightarrow> (nat \<Rightarrow> byte) \<Rightarrow> datetime \<Rightarrow> (str \<times> str) outcome" where
  "generate_token s rnd now =
     (let random_bytes = token_urlsafe rnd 24;
          token = lit ''d2d_'' @ random_bytes
      in case hash_token token of
           Inl e \<Rightarrow> (Inl e, s)
         | Inr h \<Rightarrow>
             (let s1 = logged Connect s in
              case add_days 28 now of
                Inl e \<Rightarrow> (Inl e, s1)
              | Inr expires \<Rightarrow>
                  (case execute (InsertToken h (isoformat now) (isoformat expires)) s1 of
                     (Inl e, s2) \<Rightarrow> (Inl e, s2)
                   | (Inr _, s2) \<Rightarrow> (Inr (token, h), logged Close (logged Commit s2)))))"

text \<open>
  \<open>verify_token\<close>. The candidate may be \<open>None\<close> (no token in the request);
  \<open>not token\<close> holds for \<open>None\<close> and for the empty string. \<open>fetchone()\<close> is the first
  row of the result, \<open>row[0]\<close> its only column.
\<close>

definition verify_token :: "store \<Rightarrow> str option \<Rightarrow> datetime \<Rightarrow> bool outcome" where
  "verify_token s token now =
     (case token of
        None \<Rightarrow> (Inr False, s)
      | Some t \<Rightarrow>
          if t = [] \<or> \<not> startswith t (lit ''d2d_'') then (Inr False, s)
          else (case hash_token t of
                  Inl e \<Rightarrow> (Inl e, s)
                | Inr h \<Rightarrow>
                    (case execute (SelectExpires h) (logged Connect s) of
                       (Inl e, s2) \<Rightarrow> (Inl e, s2)
                     | (Inr rows, s2) \<Rightarrow>
                         (let s3 = logged Close s2 in
                          case rows of
                            [] \<Rightarrow> (Inr False, s3)
                          | row # _ \<Rightarrow>
                              (case fromisoformat (row ! 0) of
                                 Inl e \<Rightarrow> (Inl e, s3)
                               | Inr expires \<Rightarrow> (Inr (dt_less now expires), s3))))))"

text \<open>
  \<open>log_login\<close>. The argument \<open>ua\<close> is the source's \<open>user_agent\<close>, \<open>None\<close> when the
  request has no such header; \<open>h\<close> is the source's \<open>token_hash\<close>.
\<close>

definition log_login :: "store \<Rightarrow> str \<Rightarrow> str \<Rightarrow> str option \<Rightarrow> datetime \<Rightarrow> unit outcome" where
  "log_login s token ip ua now =
     (case hash_token token of
        Inl e \<Rightarrow> (Inl e, s)
      | Inr h \<Rightarrow>
          (case execute
                  (InsertLogin h ip
                     (take 200 (case ua of None \<Rightarrow> [] | Some u \<Rightarrow> u))
                     (isoformat now))
                  (logged Connect s) of
             (Inl e, s2) \<Rightarrow> (Inl e, s2)
           | (Inr _, s2) \<Rightarrow> (Inr (), logged Close (logged Commit s2))))"

text \<open>\<open>cleanup_old_logins\<close>, with \<open>LOGIN_RETENTION_DAYS = 90\<close>.\<close>

definition LOGIN_RETENTION_DAYS :: nat where
  "LOGIN_RETENTION_DAYS = 90"

definition cleanup_old_logins :: "store \<Rightarrow> datetime \<Rightarrow> unit outcome" where
  "cleanup_old_logins s now =
     (let s1 = logged Connect s in
      case sub_days LOGIN_RETENTION_DAYS now of
        Inl e \<Rightarrow> (Inl e, s1)
      | Inr cutoff \<Rightarrow>
          (case execute (DeleteLogins (isoformat cutoff)) s1 of
             (Inl e, s2) \<Rightarrow> (Inl e, s2)
           | (Inr _, s2) \<Rightarrow> (Inr (), logged Close (logged Commit s2))))"

section \<open>Well-formed stores and runs of the system\<close>

text \<open>
  A text that \<open>isoformat\<close> writes: it parses, and formatting the result gives it back.
\<close>

definition iso_text :: "str \<Rightarrow> bool" where
  "iso_text t = (case fromisoformat t of Inl _ \<Rightarrow> False | Inr d \<Rightarrow> isoformat d = t)"

text \<open>
  The stores that the four operations produce from a new database: \<open>hash\<close> is a
  primary key, and every timestamp column holds a text written by \<open>isoformat\<close>.
\<close>

definition store_ok :: "store \<Rightarrow> bool" where
  "store_ok s =
     (distinct (map hash (tokens s)) \<and>
      list_all (\<lambda>r. iso_text (created_at r) \<and> iso_text (expires_at r)) (tokens s) \<and>
      list_all (\<lambda>r. iso_text (timestamp r)) (logins s))"

text \<open>
  One step of the system: any of the four operations, with any arguments, at any reading
  of the clock. A run is a sequence of steps.
\<close>

inductive step :: "store \<Rightarrow> store \<Rightarrow> bool" where
  step_generate: "valid_datetime now \<Longrightarrow> step s (snd (generate_token s rnd now))"
| step_verify: "valid_datetime now \<Longrightarrow> step s (snd (verify_token s token now))"
| step_log: "valid_datetime now \<Longrightarrow> step s (snd (log_login s token ip ua now))"
| step_cleanup: "valid_datetime now \<Longrightarrow> step s (snd (cleanup_old_logins s now))"

definition run :: "store \<Rightarrow> store \<Rightarrow> bool" where
  "run = rtranclp step"

section \<open>Auxiliary notions for the proofs\<close>

text \<open>The order of two datetimes by their dates alone, and equality of dates and of times of day.\<close>

definition date_less :: "datetime \<Rightarrow> datetime \<Rightarrow> bool" where
  "date_less a b =
     (year a < year b \<or> year a = year b \<and>
     (month a < month b \<or> month a = month b \<and> day a < day b))"

definition same_date :: "datetime \<Rightarrow> datetime \<Rightarrow> bool" where
  "same_date a b = (year a = year b \<and> month a = month b \<and> day a = day b)"

definition same_time :: "datetime \<Rightarrow> datetime \<Rightarrow> bool" where
  "same_time a b = (hour a = hour b \<and> minute a = minute b \<and> second a = second b \<and>
     microsecond a = microsecond b)"

text \<open>A lower-case hexadecimal digit.\<close>

definition is_hex :: "nat \<Rightarrow> bool" where
  "is_hex c = (48 \<le> c \<and> c \<le> 57 \<or> 97 \<le> c \<and> c \<le> 102)"

section \<open>Timestamps as text: order and parsing\<close>

lemma length_zpad [simp]: "length (zpad w n) = w"
  by (induction w arbitrary: n) auto

lemma text_less_append:
  "length a = length b \<Longrightarrow>
     text_less (a @ xs) (b @ ys) = (text_less a b \<or> a = b \<and> text_less xs ys)"
  by (induction a b rule: list_induct2) auto

lemma text_less_irrefl [simp]: "\<not> text_less s s"
  by (induction s) auto

lemma digits_less:
  "((n::nat) div 10 < m div 10 \<or> n div 10 = m div 10 \<and> n mod 10 < m mod 10) = (n < m)"
proof -
  define a r b q where "a = n div 10" and "r = n mod 10" and "b = m div 10" and "q = m mod 10"
  have n: "n = 10 * a + r" and m: "m = 10 * b + q" and r: "r < 10" and q: "q < 10"
    by (simp_all add: a_def r_def b_def q_def)
  have "(a < b \<or> a = b \<and> r < q) = (10 * a + r < 10 * b + q)"
    using r q by linarith
  then show ?thesis
    unfolding a_def r_def b_def q_def by simp
qed

lemma digits_eq:
  "((n::nat) div 10 = m div 10 \<and> n mod 10 = m mod 10) = (n = m)"
  by (metis div_mult_mod_eq)

lemma zpad_less:
  "n < 10 ^ w \<Longrightarrow> m < 10 ^ w \<Longrightarrow> text_less (zpad w n) (zpad w m) = (n < m)"
  and zpad_eq: "n < 10 ^ w \<Longrightarrow> m < 10 ^ w \<Longrightarrow> (zpad w n = zpad w m) = (n = m)"
proof (induction w arbitrary: n m)
  case 0
  { case 1 then show ?case by simp }
  { case 2 then show ?case by simp }
next
  case (Suc w)
  { case 1
    then have b: "n div 10 < 10 ^ w" "m div 10 < 10 ^ w" by auto
    have "text_less (zpad (Suc w) n) (zpad (Suc w) m) =
          (n div 10 < m div 10 \<or> n div 10 = m div 10 \<and> n mod 10 < m mod 10)"
      using Suc.IH(1) [OF b] Suc.IH(2) [OF b] by (simp add: text_less_append)
    also have "\<dots> = (n < m)" by (rule digits_less)
    finally show ?case . }
  { case 2
    then have b: "n div 10 < 10 ^ w" "m div 10 < 10 ^ w" by auto
    have "(zpad (Suc w) n = zpad (Suc w) m) = (n div 10 = m div 10 \<and> n mod 10 = m mod 10)"
      using Suc.IH(2) [OF b] by simp
    also have "\<dots> = (n = m)" by (rule digits_eq)
    finally show ?case . }
qed

lemma zpad_seg_less:
  "n < 10 ^ w \<Longrightarrow> m < 10 ^ w \<Longrightarrow>
     text_less (zpad w n @ xs) (zpad w m @ ys) = (n < m \<or> n = m \<and> text_less xs ys)"
  by (simp add: text_less_append zpad_less zpad_eq)

lemma frac_less:
  assumes "a < 1000000" "b < 1000000"
  shows "text_less (if a = 0 then [] else 46 # zpad 6 a) (if b = 0 then [] else 46 # zpad 6 b)
       = (a < b)"
proof -
  have p: "(10::nat) ^ 6 = 1000000" by simp
  have "text_less (zpad 6 a) (zpad 6 b) = (a < b)"
    using assms zpad_less [of a 6 b] by (simp only: p)
  moreover have "\<exists>x xs. zpad 6 b = x # xs"
    by (cases "zpad 6 b") (use length_zpad [of 6 b] in auto)
  ultimately show ?thesis by auto
qed

lemma dim_le: "days_in_month y m \<le> 31"
  by (simp add: days_in_month_def)

lemma isoformat_less:
  assumes "valid_datetime a" "valid_datetime b"
  shows "text_less (isoformat a) (isoformat b) = dt_less a b"
proof -
  have ba: "year a < 10 ^ 4" "month a < 10 ^ 2" "day a < 10 ^ 2" "hour a < 10 ^ 2"
    "minute a < 10 ^ 2" "second a < 10 ^ 2" "microsecond a < 1000000"
    using assms(1) dim_le [of "year a" "month a"] by (auto simp: valid_datetime_def)
  have bb: "year b < 10 ^ 4" "month b < 10 ^ 2" "day b < 10 ^ 2" "hour b < 10 ^ 2"
    "minute b < 10 ^ 2" "second b < 10 ^ 2" "microsecond b < 1000000"
    using assms(2) dim_le [of "year b" "month b"] by (auto simp: valid_datetime_def)
  show ?thesis
    unfolding isoformat_def dt_less_def
    by (simp only: zpad_seg_less ba bb append_Cons append_Nil text_less.simps
          frac_less [OF ba(7) bb(7)] less_irrefl simp_thms)
qed

lemma digits_zpad: "list_all is_digit (zpad w n)"
  by (induction w arbitrary: n) (auto simp: is_digit_def)

lemma value_zpad: "n < 10 ^ w \<Longrightarrow> foldl (\<lambda>a c. 10 * a + (c - 48)) 0 (zpad w n) = n"
proof (induction w arbitrary: n)
  case 0
  then show ?case by simp
next
  case (Suc w)
  then have "n div 10 < 10 ^ w" by auto
  then show ?case using Suc.IH [of "n div 10"] by simp
qed

lemma dec_zpad: "n < 10 ^ w \<Longrightarrow> dec (zpad w n) = Some n"
  by (simp add: dec_def digits_zpad value_zpad)

lemma dec_Nil: "dec [] = Some 0"
  by (simp add: dec_def)

lemma fromisoformat_isoformat:
  assumes "valid_datetime d"
  shows "fromisoformat (isoformat d) = Inr d"
proof -
  have b: "year d < 10 ^ 4" "month d < 10 ^ 2" "day d < 10 ^ 2" "hour d < 10 ^ 2"
    "minute d < 10 ^ 2" "second d < 10 ^ 2" "microsecond d < 10 ^ 6"
    using assms dim_le [of "year d" "month d"] by (auto simp: valid_datetime_def)
  note dz = b [THEN dec_zpad]
  show ?thesis
  proof (cases "microsecond d = 0")
    case True
    then have r: "\<lparr>year = year d, month = month d, day = day d, hour = hour d,
             minute = minute d, second = second d, microsecond = 0\<rparr> = d"
      by (cases d) simp
    show ?thesis
      using assms True
      by (simp add: fromisoformat_def isoformat_def nth_append dz dec_Nil Let_def r)
  next
    case False
    have r: "\<lparr>year = year d, month = month d, day = day d, hour = hour d,
             minute = minute d, second = second d, microsecond = microsecond d\<rparr> = d"
      by (cases d) simp
    show ?thesis
      using assms False
      by (simp add: fromisoformat_def isoformat_def nth_append dz dec_Nil Let_def r)
  qed
qed

section \<open>The calendar\<close>

lemma dt_less_irrefl [simp]: "\<not> dt_less d d"
  by (simp add: dt_less_def)

lemma dt_less_trans: "dt_less a b \<Longrightarrow> dt_less b c \<Longrightarrow> dt_less a c"
  unfolding dt_less_def by (elim disjE conjE) simp_all

lemma next_day_less: "next_day d = Some d' \<Longrightarrow> dt_less d d'"
  by (auto simp: next_day_def dt_less_def split: if_splits)

lemma dim_ge: "Suc 0 \<le> days_in_month y m"
  by (simp add: days_in_month_def)
lemma dim_dec: "days_in_month y 12 = 31"
  by (simp add: days_in_month_def)
lemma next_day_valid:
  "valid_datetime d \<Longrightarrow> next_day d = Some d' \<Longrightarrow> valid_datetime d'"
  by (auto simp: next_day_def valid_datetime_def dim_ge split: if_splits)
lemma prev_day_valid:
  assumes "valid_datetime d" "prev_day d = Some d'"
  shows "valid_datetime d'"
proof -
  consider (a) "1 < day d" "d' = d\<lparr>day := day d - 1\<rparr>"
    | (b) "1 < month d" "d' = d\<lparr>month := month d - 1, day := days_in_month (year d) (month d - 1)\<rparr>"
    | (c) "1 < year d" "d' = d\<lparr>year := year d - 1, month := 12, day := 31\<rparr>"
    using assms(2) by (auto simp: prev_day_def split: if_splits)
  then show ?thesis
  proof cases
    case a
    then show ?thesis using assms(1) by (auto simp: valid_datetime_def)
  next
    case b
    then show ?thesis
      using assms(1) dim_ge [of "year d" "month d - 1"] by (auto simp: valid_datetime_def)
  next
    case c
    then show ?thesis using assms(1) by (auto simp: valid_datetime_def dim_dec)
  qed
qed
lemma prev_day_less: "valid_datetime d \<Longrightarrow> prev_day d = Some d' \<Longrightarrow> dt_less d' d"
  by (auto simp: prev_day_def dt_less_def valid_datetime_def split: if_splits)


lemma add_days_valid:
  "valid_datetime d \<Longrightarrow> add_days n d = Inr d' \<Longrightarrow> valid_datetime d'"
  by (induction n arbitrary: d) (auto split: option.splits dest: next_day_valid)

lemma add_days_less:
  "add_days n d = Inr d' \<Longrightarrow> 0 < n \<Longrightarrow> dt_less d d'"
proof (induction n arbitrary: d)
  case 0
  then show ?case by simp
next
  case (Suc n)
  then obtain e where e: "next_day d = Some e" "add_days n e = Inr d'"
    by (auto split: option.splits)
  show ?case
  proof (cases n)
    case 0
    then show ?thesis using e by (simp add: next_day_less)
  next
    case (Suc k)
    then have "dt_less e d'" using Suc.IH [OF e(2)] by simp
    then show ?thesis using next_day_less [OF e(1)] dt_less_trans by blast
  qed
qed

lemma sub_days_valid:
  "valid_datetime d \<Longrightarrow> sub_days n d = Inr d' \<Longrightarrow> valid_datetime d'"
  by (induction n arbitrary: d) (auto split: option.splits dest: prev_day_valid)

lemma dt_less_date: "date_less a b \<Longrightarrow> dt_less a b"
  by (auto simp: date_less_def dt_less_def)

lemma dt_less_cases: "dt_less a b \<Longrightarrow> date_less a b \<or> same_date a b"
  by (auto simp: date_less_def dt_less_def same_date_def)

lemma date_less_trans: "date_less a b \<Longrightarrow> date_less b c \<Longrightarrow> date_less a c"
  unfolding date_less_def by (elim disjE conjE) simp_all

lemma prev_day_date_less:
  "valid_datetime d \<Longrightarrow> prev_day d = Some d' \<Longrightarrow> date_less d' d"
  by (auto simp: prev_day_def date_less_def valid_datetime_def split: if_splits)

lemma prev_day_same_time: "prev_day d = Some d' \<Longrightarrow> same_time d' d"
  by (auto simp: prev_day_def same_time_def split: if_splits)

lemma prev_day_same_date:
  "same_date a b \<Longrightarrow> prev_day a = Some a' \<Longrightarrow> prev_day b = Some b' \<Longrightarrow> same_date a' b'"
  by (auto simp: prev_day_def same_date_def split: if_splits)

lemma prev_day_greatest:
  assumes "valid_datetime a" "valid_datetime b" "date_less a b" "prev_day b = Some b'"
  shows "date_less a b' \<or> same_date a b'"
proof -
  consider (a) "1 < day b" "b' = b\<lparr>day := day b - 1\<rparr>"
    | (b) "day b = 1" "1 < month b"
          "b' = b\<lparr>month := month b - 1, day := days_in_month (year b) (month b - 1)\<rparr>"
    | (c) "day b = 1" "month b = 1" "b' = b\<lparr>year := year b - 1, month := 12, day := 31\<rparr>"
    using assms(2,4) by (auto simp: prev_day_def valid_datetime_def split: if_splits)
  then show ?thesis
  proof cases
    case a
    then show ?thesis using assms(3) by (auto simp: date_less_def same_date_def)
  next
    case b
    have va: "1 \<le> day a" "day a \<le> days_in_month (year a) (month a)"
      using assms(1) by (auto simp: valid_datetime_def)
    consider "year a < year b" | "year a = year b" "month a < month b - 1"
      | "year a = year b" "month a = month b - 1"
    proof -
      have "year a < year b \<or> year a = year b \<and> month a < month b"
        using assms(3) b(1) va(1) by (auto simp: date_less_def)
      then have "year a < year b \<or> year a = year b \<and> month a < month b - 1
          \<or> year a = year b \<and> month a = month b - 1"
        by linarith
      then show ?thesis using that by blast
    qed
    then show ?thesis
    proof cases
      case 1
      then show ?thesis using b by (simp add: date_less_def)
    next
      case 2
      then show ?thesis using b by (simp add: date_less_def)
    next
      case 3
      then have "day a \<le> days_in_month (year b) (month b - 1)" using va(2) by simp
      then show ?thesis using 3 b by (auto simp: date_less_def same_date_def)
    qed
  next
    case c
    then show ?thesis
      using assms(1,3) by (auto simp: date_less_def same_date_def valid_datetime_def dim_dec)
  qed
qed


lemma date_less_same: "date_less a b \<Longrightarrow> same_date b c \<Longrightarrow> date_less a c"
  by (simp add: date_less_def same_date_def)

lemma dt_less_asym: "dt_less a b \<Longrightarrow> \<not> dt_less b a"
  unfolding dt_less_def by (elim disjE conjE) simp_all

lemma not_dt_less_cases:
  "\<not> dt_less b a \<Longrightarrow> date_less a b \<or> same_date a b"
  by (auto simp: dt_less_def date_less_def same_date_def)

lemma same_date_time_less:
  "same_date a b \<Longrightarrow> same_date a' b' \<Longrightarrow> same_time a' a \<Longrightarrow> same_time b' b \<Longrightarrow>
     dt_less b' a' = dt_less b a"
  by (simp add: dt_less_def same_date_def same_time_def)

lemma prev_day_mono:
  assumes "valid_datetime a" "valid_datetime b" "\<not> dt_less b a"
    "prev_day a = Some a'" "prev_day b = Some b'"
  shows "\<not> dt_less b' a'"
proof -
  from not_dt_less_cases [OF assms(3)] show ?thesis
  proof
    assume ab: "date_less a b"
    have "date_less a' a" by (rule prev_day_date_less [OF assms(1,4)])
    moreover have "date_less a b' \<or> same_date a b'"
      by (rule prev_day_greatest [OF assms(1,2) ab assms(5)])
    ultimately have "date_less a' b'"
      using date_less_trans date_less_same by blast
    then show ?thesis using dt_less_date dt_less_asym by blast
  next
    assume ab: "same_date a b"
    then have "same_date a' b'" using assms(4,5) by (rule prev_day_same_date)
    then show ?thesis
      using same_date_time_less [OF ab _ prev_day_same_time [OF assms(4)]
          prev_day_same_time [OF assms(5)]] assms(3)
      by simp
  qed
qed

lemma sub_days_mono:
  "valid_datetime a \<Longrightarrow> valid_datetime b \<Longrightarrow> \<not> dt_less b a \<Longrightarrow>
     sub_days n a = Inr a' \<Longrightarrow> sub_days n b = Inr b' \<Longrightarrow> \<not> dt_less b' a'"
proof (induction n arbitrary: a b)
  case 0
  then show ?case by simp
next
  case (Suc n)
  from Suc.prems(4) obtain a1 where a1: "prev_day a = Some a1" "sub_days n a1 = Inr a'"
    by (auto split: option.splits)
  from Suc.prems(5) obtain b1 where b1: "prev_day b = Some b1" "sub_days n b1 = Inr b'"
    by (auto split: option.splits)
  show ?case
    using Suc.IH [OF prev_day_valid [OF Suc.prems(1) a1(1)] prev_day_valid [OF Suc.prems(2) b1(1)]
        prev_day_mono [OF Suc.prems(1,2,3) a1(1) b1(1)] a1(2) b1(2)] .
qed

lemma text_less_total_trans:
  "text_less a b \<Longrightarrow> \<not> text_less c b \<Longrightarrow> text_less a c"
proof (induction a b arbitrary: c rule: text_less.induct)
  case (1)
  then show ?case by simp
next
  case (2 y ys)
  then show ?case by (cases c) auto
next
  case (3 x xs)
  then show ?case by simp
next
  case (4 x xs y ys)
  then show ?case by (cases c) auto
qed

section \<open>Encoding and hashing\<close>

lemma utf8_char_None: "(utf8_char c = None) = (\<not> scalar_value c)"
  by (simp add: utf8_char_def scalar_value_def)

lemma encode_Inr_iff: "(\<exists>bs. encode s = Inr bs) = encodable s"
proof (induction s)
  case Nil
  then show ?case by (simp add: encodable_def)
next
  case (Cons c cs)
  show ?case
  proof (cases "utf8_char c")
    case None
    then show ?thesis using utf8_char_None [of c] by (simp add: encodable_def)
  next
    case (Some bs)
    then have "scalar_value c" using utf8_char_None [of c] by auto
    then show ?thesis
      using Some Cons.IH by (cases "encode cs") (auto simp: encodable_def)
  qed
qed

lemma encode_error: "encode s = Inl e \<Longrightarrow> e = UnicodeEncodeError"
  by (induction s arbitrary: e) (auto split: option.splits sum.splits)

lemma length_sha_round: "length (sha_round v kw) = length v"
  by (cases "(v, kw)" rule: sha_round.cases) (simp_all add: Let_def)

lemma length_rounds: "length (foldl sha_round v kws) = length v"
  by (induction kws arbitrary: v) (simp_all add: length_sha_round)

lemma length_compress: "length (compress hs block) = length hs"
  by (simp add: compress_def length_rounds)

lemma length_blocks: "length (foldl compress hs blocks) = length hs"
  by (induction blocks arbitrary: hs) (simp_all add: length_compress)

lemma length_be_bytes: "length (be_bytes k n) = k"
  by (simp add: be_bytes_def)

lemma length_concat_const: "(\<And>x. x \<in> set xs \<Longrightarrow> length (f x) = k) \<Longrightarrow> length (concat (map f xs)) = k * length xs"
  by (induction xs) auto

lemma length_sha256: "length (sha256 m) = 32"
  by (simp add: sha256_def length_concat_const [where k = 4] length_be_bytes length_blocks sha_H0_def)

lemma length_hexlify: "length (hexlify bs) = 2 * length bs"
  by (simp add: hexlify_def length_concat_const [where k = 2])

lemma hexdigit_hex: "n < 16 \<Longrightarrow> is_hex (hexdigit n)"
  by (auto simp: is_hex_def hexdigit_def)

lemma hex_hexlify: "list_all is_hex (hexlify bs)"
proof -
  have "unat b div 16 < 16" for b :: byte
    using unsigned_less [of b, where ?'a = nat] by simp
  then show ?thesis
    by (induction bs) (simp_all add: hexlify_def hexdigit_hex)
qed

lemma hex_scalar: "is_hex c \<Longrightarrow> scalar_value c"
  by (auto simp: is_hex_def scalar_value_def)

lemma hex_encodable: "list_all is_hex s \<Longrightarrow> encodable s"
  by (induction s) (auto simp: encodable_def hex_scalar)

lemma hash_token_Inr:
  "hash_token t = Inr h \<Longrightarrow> encodable t \<and> length h = 64 \<and> list_all is_hex h"
  using encode_Inr_iff [of t]
  by (auto simp: hash_token_def length_hexlify length_sha256 hex_hexlify split: sum.splits)

lemma hash_token_Inl: "hash_token t = Inl e \<Longrightarrow> e = UnicodeEncodeError \<and> \<not> encodable t"
  using encode_Inr_iff [of t]
  by (auto simp: hash_token_def split: sum.splits dest: encode_error)

lemma hash_token_encodable: "encodable t \<Longrightarrow> \<exists>h. hash_token t = Inr h"
  using encode_Inr_iff [of t] by (auto simp: hash_token_def)

section \<open>The texts the operations store\<close>

lemma lit_prefix: "lit ''d2d_'' = [100, 50, 100, 95]"
  by (simp add: lit_def)

lemma b64char_le: "b64char i \<le> 122"
  by (auto simp: b64char_def)

lemma b64_chars: "list_all (\<lambda>c. c \<le> 122) (urlsafe_b64encode bs)"
  by (induction bs rule: urlsafe_b64encode.induct) (simp_all add: b64char_le)

lemma rstrip_chars: "list_all P s \<Longrightarrow> list_all P (rstrip c s)"
proof -
  assume "list_all P s"
  then have "\<forall>x\<in>set (rev s). P x" by (simp add: list_all_iff)
  then have "\<forall>x\<in>set (dropWhile (\<lambda>x. x = c) (rev s)). P x"
    using set_dropWhileD by fastforce
  then show ?thesis by (simp add: rstrip_def list_all_iff)
qed

lemma token_urlsafe_chars: "list_all (\<lambda>c. c \<le> 122) (token_urlsafe rnd n)"
  by (simp add: token_urlsafe_def rstrip_chars b64_chars)

lemma small_encodable: "list_all (\<lambda>c. c \<le> 122) s \<Longrightarrow> encodable s"
  by (induction s) (auto simp: encodable_def scalar_value_def)

lemma encodable_append: "encodable (a @ b) = (encodable a \<and> encodable b)"
  by (simp add: encodable_def)

lemma token_encodable: "encodable (lit ''d2d_'' @ token_urlsafe rnd n)"
  by (simp add: encodable_append small_encodable token_urlsafe_chars)
     (simp add: lit_prefix encodable_def scalar_value_def)

lemma zpad_chars: "list_all (\<lambda>c. c \<le> 122) (zpad w n)"
  by (induction w arbitrary: n) auto

lemma isoformat_encodable: "encodable (isoformat d)"
  by (rule small_encodable) (simp add: isoformat_def zpad_chars)

lemma fromisoformat_valid: "fromisoformat t = Inr d \<Longrightarrow> valid_datetime d"
  by (auto simp: fromisoformat_def Let_def split: if_splits option.splits)

lemma iso_text_iff: "iso_text t = (\<exists>d. valid_datetime d \<and> t = isoformat d)"
  by (auto simp: iso_text_def fromisoformat_isoformat split: sum.splits dest: fromisoformat_valid)

section \<open>The operations, path by path\<close>

lemma tables_logged [simp]:
  "tokens (logged ev s) = tokens s" "logins (logged ev s) = logins s"
  "logins_seq (logged ev s) = logins_seq s"
  by (simp_all add: logged_def)

lemma execute_select:
  "execute (SelectExpires h) s = (r, s') \<Longrightarrow>
     tokens s' = tokens s \<and> logins s' = logins s \<and> logins_seq s' = logins_seq s"
  by (auto simp: execute_def Let_def split: if_splits)

lemma execute_InsertToken:
  "execute (InsertToken h c e) s =
     (if \<not> (encodable h \<and> encodable c \<and> encodable e)
      then (Inl UnicodeEncodeError, logged (Execute (InsertToken h c e)) s)
      else if h \<in> set (map hash (tokens s))
      then (Inl IntegrityError, logged (Execute (InsertToken h c e)) s)
      else (Inr [], (logged (Execute (InsertToken h c e)) s)
              \<lparr>tokens := tokens s @ [\<lparr>hash = h, created_at = c, expires_at = e\<rparr>]\<rparr>))"
  by (simp add: execute_def params_def Let_def)

lemma execute_SelectExpires:
  "execute (SelectExpires h) s =
     (if \<not> encodable h then (Inl UnicodeEncodeError, logged (Execute (SelectExpires h)) s)
      else (Inr (map (\<lambda>r. [expires_at r]) (filter (\<lambda>r. hash r = h) (tokens s))),
            logged (Execute (SelectExpires h)) s))"
  by (simp add: execute_def params_def Let_def)

lemma execute_InsertLogin:
  "execute (InsertLogin h ip ua ts) s =
     (if \<not> (encodable h \<and> encodable ip \<and> encodable ua \<and> encodable ts)
      then (Inl UnicodeEncodeError, logged (Execute (InsertLogin h ip ua ts)) s)
      else if max_rowid \<le> logins_seq s
      then (Inl OperationalError, logged (Execute (InsertLogin h ip ua ts)) s)
      else (Inr [], (logged (Execute (InsertLogin h ip ua ts)) s)
              \<lparr>logins := logins s @
                 [\<lparr>login_id = Suc (logins_seq s), token_hash = h, ip_address = ip,
                   user_agent = ua, timestamp = ts\<rparr>],
               logins_seq := Suc (logins_seq s)\<rparr>))"
  by (simp add: execute_def params_def Let_def)

lemma execute_DeleteLogins:
  "execute (DeleteLogins c) s =
     (if \<not> encodable c then (Inl UnicodeEncodeError, logged (Execute (DeleteLogins c)) s)
      else (Inr [], (logged (Execute (DeleteLogins c)) s)
              \<lparr>logins := filter (\<lambda>r. \<not> text_less (timestamp r) c) (logins s)\<rparr>))"
  by (simp add: execute_def params_def Let_def)

lemma hash_encodable: "hash_token t = Inr h \<Longrightarrow> encodable h"
  by (simp add: hash_token_Inr hex_encodable)

text \<open>What each operation returns and the store it leaves, path by path.\<close>

lemma generate_token_eq:
  assumes "hash_token (lit ''d2d_'' @ token_urlsafe rnd 24) = Inr h"
  shows "generate_token s rnd now =
     (case add_days 28 now of
        Inl e \<Rightarrow> (Inl e, logged Connect s)
      | Inr expires \<Rightarrow>
          if h \<in> set (map hash (tokens s))
          then (Inl IntegrityError,
                logged (Execute (InsertToken h (isoformat now) (isoformat expires)))
                  (logged Connect s))
          else (Inr (lit ''d2d_'' @ token_urlsafe rnd 24, h),
                logged Close (logged Commit
                  ((logged (Execute (InsertToken h (isoformat now) (isoformat expires)))
                     (logged Connect s))
                   \<lparr>tokens := tokens s @
                      [\<lparr>hash = h, created_at = isoformat now,
                        expires_at = isoformat expires\<rparr>]\<rparr>))))"
  using assms hash_encodable [OF assms]
  by (simp add: generate_token_def Let_def execute_InsertToken isoformat_encodable
        split: sum.splits)

lemma token_hash_exists: "\<exists>h. hash_token (lit ''d2d_'' @ token_urlsafe rnd 24) = Inr h"
  by (rule hash_token_encodable [OF token_encodable])

lemma verify_token_eq:
  assumes "t \<noteq> []" "startswith t (lit ''d2d_'')" "hash_token t = Inr h"
  shows "verify_token s (Some t) now =
     (case filter (\<lambda>r. hash r = h) (tokens s) of
        [] \<Rightarrow> Inr False
      | r # _ \<Rightarrow> (case fromisoformat (expires_at r) of
                    Inl e \<Rightarrow> Inl e
                  | Inr expires \<Rightarrow> Inr (dt_less now expires)),
      logged Close (logged (Execute (SelectExpires h)) (logged Connect s)))"
  using assms hash_encodable [OF assms(3)]
  by (simp add: verify_token_def Let_def execute_SelectExpires split: list.splits sum.splits)

lemma log_login_eq:
  assumes "hash_token token = Inr h"
  shows "log_login s token ip ua now =
     (let u = take 200 (case ua of None \<Rightarrow> [] | Some x \<Rightarrow> x);
          q = Execute (InsertLogin h ip u (isoformat now))
      in if \<not> (encodable ip \<and> encodable u)
         then (Inl UnicodeEncodeError, logged q (logged Connect s))
         else if max_rowid \<le> logins_seq s
         then (Inl OperationalError, logged q (logged Connect s))
         else (Inr (),
               logged Close (logged Commit
                 ((logged q (logged Connect s))
                  \<lparr>logins := logins s @
                     [\<lparr>login_id = Suc (logins_seq s), token_hash = h, ip_address = ip,
                       user_agent = u, timestamp = isoformat now\<rparr>],
                   logins_seq := Suc (logins_seq s)\<rparr>))))"
  using assms hash_encodable [OF assms]
  by (simp add: log_login_def Let_def execute_InsertLogin isoformat_encodable)

lemma log_login_raises:
  "hash_token token = Inl e \<Longrightarrow> log_login s token ip ua now = (Inl e, s)"
  by (simp add: log_login_def)

lemma cleanup_old_logins_eq:
  "cleanup_old_logins s now =
     (case sub_days 90 now of
        Inl e \<Rightarrow> (Inl e, logged Connect s)
      | Inr cutoff \<Rightarrow>
          (Inr (),
           logged Close (logged Commit
             ((logged (Execute (DeleteLogins (isoformat cutoff))) (logged Connect s))
              \<lparr>logins := filter (\<lambda>r. \<not> text_less (timestamp r) (isoformat cutoff))
                           (logins s)\<rparr>))))"
  by (simp add: cleanup_old_logins_def LOGIN_RETENTION_DAYS_def Let_def execute_DeleteLogins
        isoformat_encodable split: sum.splits)

section \<open>Evaluating the calendar on given dates\<close>

lemma iso_text_isoformat: "valid_datetime d \<Longrightarrow> iso_text (isoformat d)"
  by (auto simp: iso_text_iff)

lemma add_days_numeral:
  "add_days (numeral k) d =
     (case next_day d of None \<Rightarrow> Inl OverflowError | Some d' \<Rightarrow> add_days (pred_numeral k) d')"
  by (simp add: numeral_eq_Suc)

lemma sub_days_numeral:
  "sub_days (numeral k) d =
     (case prev_day d of None \<Rightarrow> Inl OverflowError | Some d' \<Rightarrow> sub_days (pred_numeral k) d')"
  by (simp add: numeral_eq_Suc)

lemmas calendar_eval =
  mk_datetime_def valid_datetime_def days_in_month_def is_leap_def dt_less_def
  next_day_def prev_day_def add_days_numeral sub_days_numeral

lemma hash_token_example:
  "hash_token (lit ''d2d_abc123'') =
     Inr (hexlify (sha256 [0x64, 0x32, 0x64, 0x5f, 0x61, 0x62, 0x63, 0x31, 0x32, 0x33]))"
  by (simp add: hash_token_def lit_def utf8_char_def)

section \<open>Worked examples on a new database\<close>

lemma log_login_example:
  "log_login init_database (lit ''d2d_abc123'') (lit ''1.2.3.4'') None now =
     (Inr (),
      \<lparr>tokens = [],
       logins =
         [\<lparr>login_id = 1,
           token_hash = hexlify (sha256 [0x64, 0x32, 0x64, 0x5f, 0x61, 0x62, 0x63, 0x31, 0x32, 0x33]),
           ip_address = lit ''1.2.3.4'', user_agent = [], timestamp = isoformat now\<rparr>],
       logins_seq = 1,
       journal =
         [Connect,
          Execute (InsertLogin
            (hexlify (sha256 [0x64, 0x32, 0x64, 0x5f, 0x61, 0x62, 0x63, 0x31, 0x32, 0x33]))
            (lit ''1.2.3.4'') [] (isoformat now)),
          Commit, Close]\<rparr>)"
  by (simp add: log_login_eq [OF hash_token_example] Let_def init_database_def logged_def
        max_rowid_def)
     (simp add: lit_def encodable_def scalar_value_def)

lemma token_urlsafe_example:
  "token_urlsafe (\<lambda>i. 37 * of_nat i + 250) 24 = lit ''-h9EaY6z2P0iR2yRttsAJUpvlLneAyhN''"
  by code_simp

lemma generate_token_example:
  "generate_token init_database (\<lambda>i. 37 * of_nat i + 250) (mk_datetime 2024 2 10 9 5 0 1234) =
       (Inr (lit ''d2d_-h9EaY6z2P0iR2yRttsAJUpvlLneAyhN'',
             projr (hash_token (lit ''d2d_-h9EaY6z2P0iR2yRttsAJUpvlLneAyhN''))),
        \<lparr>tokens =
           [\<lparr>hash = projr (hash_token (lit ''d2d_-h9EaY6z2P0iR2yRttsAJUpvlLneAyhN'')),
             created_at = isoformat (mk_datetime 2024 2 10 9 5 0 1234),
             expires_at = isoformat (mk_datetime 2024 3 9 9 5 0 1234)\<rparr>],
         logins = [], logins_seq = 0,
         journal =
           [Connect,
            Execute (InsertToken
              (projr (hash_token (lit ''d2d_-h9EaY6z2P0iR2yRttsAJUpvlLneAyhN'')))
              (isoformat (mk_datetime 2024 2 10 9 5 0 1234))
              (isoformat (mk_datetime 2024 3 9 9 5 0 1234))),
            Commit, Close]\<rparr>)"
proof -
  let ?rnd = "\<lambda>i. 37 * of_nat i + 250 :: byte"
  let ?now = "mk_datetime 2024 2 10 9 5 0 1234"
  let ?p = "lit ''d2d_-h9EaY6z2P0iR2yRttsAJUpvlLneAyhN''"
  have p: "lit ''d2d_'' @ token_urlsafe ?rnd 24 = ?p"
    by (simp add: token_urlsafe_example) (simp add: lit_def)
  obtain h where h: "hash_token ?p = Inr h"
    using token_hash_exists [of ?rnd] by (auto simp: p)
  have e: "add_days 28 ?now = Inr (mk_datetime 2024 3 9 9 5 0 1234)"
    by (simp add: calendar_eval)
  show ?thesis
    using h by (simp add: generate_token_eq [of ?rnd h] p e init_database_def logged_def)
qed

section \<open>Looking a token up\<close>

lemma filter_key_distinct:
  assumes "distinct (map f xs)" "r \<in> set xs"
  shows "filter (\<lambda>x. f x = f r) xs = [r]"
  using assms
proof (induction xs)
  case Nil
  then show ?case by simp
next
  case (Cons x xs)
  show ?case
  proof (cases "x = r")
    case True
    then have "f r \<notin> f ` set xs" using Cons.prems(1) by simp
    then have "\<forall>y\<in>set xs. f y \<noteq> f r" by (metis imageI)
    then have "filter (\<lambda>x. f x = f r) xs = []" by (simp add: filter_empty_conv)
    then show ?thesis using True by simp
  next
    case False
    then have "r \<in> set xs" using Cons.prems(2) by simp
    moreover have "f x \<noteq> f r" using Cons.prems(1) \<open>r \<in> set xs\<close> by auto
    ultimately show ?thesis using Cons by simp
  qed
qed

lemma verify_token_lookup:
  assumes "store_ok s" "t \<noteq> []" "startswith t (lit ''d2d_'')" "hash_token t = Inr h"
  shows "fst (verify_token s (Some t) now) =
           Inr (\<exists>r\<in>set (tokens s). hash r = h \<and>
                  (\<exists>expires. fromisoformat (expires_at r) = Inr expires \<and> dt_less now expires))"
proof (cases "\<exists>r\<in>set (tokens s). hash r = h")
  case False
  then have "filter (\<lambda>r. hash r = h) (tokens s) = []"
    by (simp add: filter_empty_conv)
  then show ?thesis
    using False by (simp add: verify_token_eq [OF assms(2,3,4)])
next
  case True
  then obtain r where r: "r \<in> set (tokens s)" "hash r = h" by blast
  have d: "distinct (map hash (tokens s))" using assms(1) by (simp add: store_ok_def)
  have f: "filter (\<lambda>x. hash x = h) (tokens s) = [r]"
    using filter_key_distinct [OF d r(1)] r(2) by simp
  have "iso_text (expires_at r)"
    using assms(1) r(1) by (simp add: store_ok_def list_all_iff)
  then obtain e where e: "fromisoformat (expires_at r) = Inr e"
    by (auto simp: iso_text_def split: sum.splits)
  have u: "r' = r" if "r' \<in> set (tokens s)" "hash r' = h" for r'
  proof -
    have "r' \<in> set (filter (\<lambda>x. hash x = h) (tokens s))" using that by simp
    then show ?thesis by (simp add: f)
  qed
  have "(\<exists>r\<in>set (tokens s). hash r = h \<and>
           (\<exists>expires. fromisoformat (expires_at r) = Inr expires \<and> dt_less now expires))
        = dt_less now e"
  proof
    assume "\<exists>r\<in>set (tokens s). hash r = h \<and>
           (\<exists>expires. fromisoformat (expires_at r) = Inr expires \<and> dt_less now expires)"
    then obtain r' x where "r' \<in> set (tokens s)" "hash r' = h"
      "fromisoformat (expires_at r') = Inr x" "dt_less now x" by blast
    then show "dt_less now e" using u [of r'] e by simp
  next
    assume "dt_less now e"
    then show "\<exists>r\<in>set (tokens s). hash r = h \<and>
           (\<exists>expires. fromisoformat (expires_at r) = Inr expires \<and> dt_less now expires)"
      using r e by blast
  qed
  then show ?thesis
    using f e by (simp add: verify_token_eq [OF assms(2,3,4)])
qed

section \<open>Old timestamps\<close>

lemma older_iff:
  assumes "iso_text ts" "valid_datetime cutoff"
  shows "text_less ts (isoformat cutoff) =
           (\<exists>t. fromisoformat ts = Inr t \<and> dt_less t cutoff)"
proof -
  from assms(1) obtain t where t: "valid_datetime t" "ts = isoformat t"
    by (auto simp: iso_text_iff)
  show ?thesis
    by (simp add: t(2) fromisoformat_isoformat [OF t(1)] isoformat_less [OF t(1) assms(2)])
qed

section \<open>What each operation does to the tables\<close>

lemma verify_token_tables:
  "tokens (snd (verify_token s token now)) = tokens s
   \<and> logins (snd (verify_token s token now)) = logins s
   \<and> logins_seq (snd (verify_token s token now)) = logins_seq s"
  by (auto simp: verify_token_def Let_def split: option.splits sum.splits prod.splits list.splits
           dest: execute_select)

lemma generate_token_tables:
  assumes "hash_token (lit ''d2d_'' @ token_urlsafe rnd 24) = Inr h"
  shows "tokens (snd (generate_token s rnd now)) =
           (case add_days 28 now of
              Inl e \<Rightarrow> tokens s
            | Inr expires \<Rightarrow>
                if h \<in> set (map hash (tokens s)) then tokens s
                else tokens s @ [\<lparr>hash = h, created_at = isoformat now,
                                   expires_at = isoformat expires\<rparr>])"
    and "logins (snd (generate_token s rnd now)) = logins s"
    and "logins_seq (snd (generate_token s rnd now)) = logins_seq s"
  by (simp_all add: generate_token_eq [OF assms] split: sum.splits)

lemma log_login_tables:
  "tokens (snd (log_login s token ip ua now)) = tokens s"
  "logins (snd (log_login s token ip ua now)) = logins s \<or>
   (\<exists>h. hash_token token = Inr h \<and>
      logins (snd (log_login s token ip ua now)) = logins s @
        [\<lparr>login_id = Suc (logins_seq s), token_hash = h, ip_address = ip,
          user_agent = take 200 (case ua of None \<Rightarrow> [] | Some x \<Rightarrow> x),
          timestamp = isoformat now\<rparr>])"
  by (cases "hash_token token"; simp add: log_login_raises log_login_eq Let_def)+

lemma cleanup_old_logins_tables:
  "tokens (snd (cleanup_old_logins s now)) = tokens s"
  "logins_seq (snd (cleanup_old_logins s now)) = logins_seq s"
  "\<exists>P. logins (snd (cleanup_old_logins s now)) = filter P (logins s)"
proof -
  show "tokens (snd (cleanup_old_logins s now)) = tokens s"
    "logins_seq (snd (cleanup_old_logins s now)) = logins_seq s"
    by (simp_all add: cleanup_old_logins_eq split: sum.splits)
  show "\<exists>P. logins (snd (cleanup_old_logins s now)) = filter P (logins s)"
  proof (cases "sub_days 90 now")
    case (Inl e)
    then have "logins (snd (cleanup_old_logins s now)) = filter (\<lambda>r. True) (logins s)"
      by (simp add: cleanup_old_logins_eq)
    then show ?thesis by blast
  next
    case (Inr c)
    then have "logins (snd (cleanup_old_logins s now)) =
        filter (\<lambda>r. \<not> text_less (timestamp r) (isoformat c)) (logins s)"
      by (simp add: cleanup_old_logins_eq)
    then show ?thesis by blast
  qed
qed

text \<open>A step leaves the rows of the tokens table in place and adds at most one, with a new key.\<close>

lemma step_tokens:
  assumes "step s s'"
  shows "tokens s' = tokens s \<or>
         (\<exists>r. tokens s' = tokens s @ [r] \<and> hash r \<notin> set (map hash (tokens s)))"
  using assms
proof cases
  case (step_generate now rnd)
  obtain h where h: "hash_token (lit ''d2d_'' @ token_urlsafe rnd 24) = Inr h"
    using token_hash_exists by blast
  show ?thesis
    unfolding step_generate(1) generate_token_tables(1) [OF h]
    by (auto split: sum.splits)
next
  case (step_verify now token)
  then show ?thesis by (simp add: verify_token_tables)
next
  case (step_log now token ip ua)
  then show ?thesis by (simp add: log_login_tables)
next
  case (step_cleanup now)
  then show ?thesis by (simp add: cleanup_old_logins_tables)
qed

lemma run_tokens:
  assumes "run s1 s2"
  shows "\<exists>ys. tokens s2 = tokens s1 @ ys \<and> distinct (map hash ys) \<and>
              set (map hash ys) \<inter> set (map hash (tokens s1)) = {}"
  using assms unfolding run_def
proof (induction rule: rtranclp_induct)
  case base
  then show ?case by simp
next
  case (step y z)
  then obtain ys where ys: "tokens y = tokens s1 @ ys" "distinct (map hash ys)"
    "set (map hash ys) \<inter> set (map hash (tokens s1)) = {}" by blast
  from step_tokens [OF step.hyps(2)] show ?case
  proof
    assume "tokens z = tokens y"
    then show ?thesis using ys by auto
  next
    assume "\<exists>r. tokens z = tokens y @ [r] \<and> hash r \<notin> set (map hash (tokens y))"
    then obtain r where r: "tokens z = tokens y @ [r]" "hash r \<notin> set (map hash (tokens y))"
      by blast
    have "tokens z = tokens s1 @ (ys @ [r])" using r(1) ys(1) by simp
    moreover have "distinct (map hash (ys @ [r]))" using r(2) ys(1,2) by auto
    moreover have "set (map hash (ys @ [r])) \<inter> set (map hash (tokens s1)) = {}"
      using r(2) ys(1,3) by auto
    ultimately show ?thesis by blast
  qed
qed

lemma store_ok_init: "store_ok init_database"
  by (simp add: store_ok_def init_database_def)

lemma step_store_ok:
  assumes "store_ok s" "step s s'"
  shows "store_ok s'"
  using assms(2)
proof cases
  case (step_generate now rnd)
  obtain h where h: "hash_token (lit ''d2d_'' @ token_urlsafe rnd 24) = Inr h"
    using token_hash_exists by blast
  show ?thesis
  proof (cases "add_days 28 now")
    case (Inl e)
    then show ?thesis
      using assms(1) unfolding step_generate(1) store_ok_def
      by (simp add: generate_token_tables [OF h])
  next
    case (Inr expires)
    have "iso_text (isoformat now)" "iso_text (isoformat expires)"
      using step_generate(2) add_days_valid [OF step_generate(2) Inr]
      by (simp_all add: iso_text_isoformat)
    then show ?thesis
      using assms(1) Inr unfolding step_generate(1) store_ok_def
      by (simp add: generate_token_tables [OF h])
  qed
next
  case (step_verify now token)
  then show ?thesis using assms(1) by (simp add: store_ok_def verify_token_tables)
next
  case (step_log now token ip ua)
  have "iso_text (isoformat now)" using step_log(2) by (rule iso_text_isoformat)
  then show ?thesis
    using assms(1) log_login_tables(2) [of s token ip ua now]
    unfolding step_log(1) store_ok_def
    by (auto simp: log_login_tables(1))
next
  case (step_cleanup now)
  obtain P where "logins (snd (cleanup_old_logins s now)) = filter P (logins s)"
    using cleanup_old_logins_tables(3) by blast
  then show ?thesis
    using assms(1) unfolding step_cleanup(1) store_ok_def
    by (simp add: cleanup_old_logins_tables(1) list_all_iff)
qed

lemma run_store_ok: "run s s' \<Longrightarrow> store_ok s \<Longrightarrow> store_ok s'"
  unfolding run_def by (induction rule: rtranclp_induct) (auto intro: step_store_ok)

section \<open>Issuing a token\<close>

lemma isoformat_chars: "list_all (\<lambda>c. c \<le> 84) (isoformat d)"
proof -
  have "list_all (\<lambda>c. c \<le> 84) (zpad w n)" for w n
    by (induction w arbitrary: n) auto
  then show ?thesis by (simp add: isoformat_def)
qed

lemma plaintext_not_iso: "isoformat d \<noteq> lit ''d2d_'' @ x"
proof
  assume "isoformat d = lit ''d2d_'' @ x"
  then have "list_all (\<lambda>c. c \<le> 84) (lit ''d2d_'' @ x)" using isoformat_chars [of d] by simp
  then show False by (simp add: lit_prefix)
qed

lemma plaintext_not_hex: "list_all is_hex h \<Longrightarrow> h \<noteq> lit ''d2d_'' @ x"
  by (auto simp: lit_prefix is_hex_def)

lemma startswith_prefix: "startswith (p @ x) p"
  by (simp add: startswith_def)

lemma generate_token_Inr:
  assumes "generate_token s rnd now = (Inr (plaintext, h), s')"
  shows "plaintext = lit ''d2d_'' @ token_urlsafe rnd 24 \<and> hash_token plaintext = Inr h
         \<and> h \<notin> set (map hash (tokens s))
         \<and> (\<exists>expires. add_days 28 now = Inr expires \<and>
               tokens s' = tokens s @ [\<lparr>hash = h, created_at = isoformat now,
                                        expires_at = isoformat expires\<rparr>])
         \<and> logins s' = logins s \<and> logins_seq s' = logins_seq s"
proof -
  obtain h0 where h0: "hash_token (lit ''d2d_'' @ token_urlsafe rnd 24) = Inr h0"
    using token_hash_exists by blast
  show ?thesis
    using assms unfolding generate_token_eq [OF h0]
    by (auto simp: h0 split: sum.splits if_splits)
qed

section \<open>Recording a login\<close>

lemma log_login_Inr:
  assumes "log_login s token ip ua now = (Inr (), s')"
  shows "\<exists>h. hash_token token = Inr h
           \<and> encodable ip \<and> encodable (take 200 (case ua of None \<Rightarrow> [] | Some x \<Rightarrow> x))
           \<and> logins_seq s < max_rowid
           \<and> s' = s\<lparr>logins := logins s @
                      [\<lparr>login_id = Suc (logins_seq s), token_hash = h, ip_address = ip,
                        user_agent = take 200 (case ua of None \<Rightarrow> [] | Some x \<Rightarrow> x),
                        timestamp = isoformat now\<rparr>],
                    logins_seq := Suc (logins_seq s),
                    journal := journal s @
                      [Connect,
                       Execute (InsertLogin h ip
                         (take 200 (case ua of None \<Rightarrow> [] | Some x \<Rightarrow> x)) (isoformat now)),
                       Commit, Close]\<rparr>"
proof (cases "hash_token token")
  case (Inl e)
  then show ?thesis using assms by (simp add: log_login_raises)
next
  case (Inr h)
  then show ?thesis
    using assms by (auto simp: log_login_eq [OF Inr] Let_def logged_def split: if_splits)
qed

lemma log_login_Inl:
  assumes "log_login s token ip ua now = (Inl e, s')"
  shows "(e = UnicodeEncodeError \<or> e = OperationalError)
         \<and> tokens s' = tokens s \<and> logins s' = logins s \<and> logins_seq s' = logins_seq s"
proof (cases "hash_token token")
  case (Inl e')
  then show ?thesis using assms hash_token_Inl [OF Inl] by (simp add: log_login_raises)
next
  case (Inr h)
  then show ?thesis
    using assms by (auto simp: log_login_eq [OF Inr] Let_def split: if_splits)
qed


text \<open>With no id left, the insert is refused and nothing is stored.\<close>

lemma log_login_full:
  assumes "encodable token" "encodable ip"
    "encodable (take 200 (case ua of None \<Rightarrow> [] | Some x \<Rightarrow> x))"
    "max_rowid \<le> logins_seq s"
  shows "fst (log_login s token ip ua now) = Inl OperationalError
         \<and> tokens (snd (log_login s token ip ua now)) = tokens s
         \<and> logins (snd (log_login s token ip ua now)) = logins s
         \<and> logins_seq (snd (log_login s token ip ua now)) = logins_seq s"
proof -
  obtain h where h: "hash_token token = Inr h"
    using hash_token_encodable [OF assms(1)] by blast
  show ?thesis
    using assms(2,3,4) by (simp add: log_login_eq [OF h] Let_def)
qed

lemma verify_token_journal:
  assumes "t \<noteq> []" "startswith t (lit ''d2d_'')" "hash_token t = Inr h"
  shows "journal (snd (verify_token s (Some t) now)) =
           journal s @ [Connect, Execute (SelectExpires h), Close]"
  by (simp add: verify_token_eq [OF assms] logged_def)

text \<open>Every row a step leaves in a table was there before or is the row an insert wrote.\<close>

lemma step_rows:
  assumes "step s s'"
  shows "(\<forall>r\<in>set (logins s'). r \<in> set (logins s) \<or>
            (\<exists>token ip ua now h. hash_token token = Inr h \<and>
               r = \<lparr>login_id = Suc (logins_seq s), token_hash = h, ip_address = ip,
                     user_agent = take 200 (case ua of None \<Rightarrow> [] | Some x \<Rightarrow> x),
                     timestamp = isoformat now\<rparr>))
         \<and> (\<forall>r\<in>set (tokens s'). r \<in> set (tokens s) \<or>
            (\<exists>rnd now expires h. hash_token (lit ''d2d_'' @ token_urlsafe rnd 24) = Inr h \<and>
               add_days 28 now = Inr expires \<and>
               r = \<lparr>hash = h, created_at = isoformat now, expires_at = isoformat expires\<rparr>))"
  using assms
proof cases
  case (step_generate now rnd)
  obtain h where h: "hash_token (lit ''d2d_'' @ token_urlsafe rnd 24) = Inr h"
    using token_hash_exists by blast
  have "\<forall>r\<in>set (tokens s'). r \<in> set (tokens s) \<or>
            (\<exists>rnd now expires h. hash_token (lit ''d2d_'' @ token_urlsafe rnd 24) = Inr h \<and>
               add_days 28 now = Inr expires \<and>
               r = \<lparr>hash = h, created_at = isoformat now, expires_at = isoformat expires\<rparr>)"
  proof (cases "add_days 28 now")
    case (Inl e)
    then show ?thesis by (simp add: step_generate(1) generate_token_tables(1) [OF h])
  next
    case (Inr expires)
    then show ?thesis
      using h by (auto simp: step_generate(1) generate_token_tables(1) [OF h])
  qed
  then show ?thesis by (simp add: step_generate(1) generate_token_tables(2) [OF h])
next
  case (step_verify now token)
  then show ?thesis by (simp add: verify_token_tables)
next
  case (step_log now token ip ua)
  from log_login_tables(2) [of s token ip ua now] show ?thesis
  proof
    assume "logins (snd (log_login s token ip ua now)) = logins s"
    then show ?thesis by (simp add: step_log(1) log_login_tables(1))
  next
    assume "\<exists>h. hash_token token = Inr h \<and>
      logins (snd (log_login s token ip ua now)) = logins s @
        [\<lparr>login_id = Suc (logins_seq s), token_hash = h, ip_address = ip,
          user_agent = take 200 (case ua of None \<Rightarrow> [] | Some x \<Rightarrow> x),
          timestamp = isoformat now\<rparr>]"
    then obtain h where h: "hash_token token = Inr h"
      "logins s' = logins s @
        [\<lparr>login_id = Suc (logins_seq s), token_hash = h, ip_address = ip,
          user_agent = take 200 (case ua of None \<Rightarrow> [] | Some x \<Rightarrow> x),
          timestamp = isoformat now\<rparr>]"
      unfolding step_log(1) by blast
    have "tokens s' = tokens s" by (simp add: step_log(1) log_login_tables(1))
    then show ?thesis using h by auto
  qed
next
  case (step_cleanup now)
  obtain P where "logins s' = filter P (logins s)"
    unfolding step_cleanup(1) using cleanup_old_logins_tables(3) by blast
  then show ?thesis by (simp add: step_cleanup(1) cleanup_old_logins_tables(1))
qed

section \<open>The claims\<close>

text \<open>
  Claim C1. \<open>log_login\<close> never touches the tokens table, and it either raises (a text
  that UTF-8 cannot encode, or no id left for a new row) and leaves the logins table as
  it was, or returns and appends exactly one row: the next id, the hash of the token, the IP address, the first 200
  characters of the user agent and the clock reading. A row of \<open>logins\<close> has these five
  fields and no other. After any step of the system, every row of \<open>logins\<close> was there
  before or is such a row, and every row of \<open>tokens\<close> was there before or is the hash
  of a generated token with its two timestamps: no operation has an argument or a column
  for a search query, and none stores one.
\<close>

theorem only_login_metadata_stored:
  "tokens (snd (log_login s token ip ua now)) = tokens s
   \<and> ((fst (log_login s token ip ua now) = Inl UnicodeEncodeError
          \<or> fst (log_login s token ip ua now) = Inl OperationalError)
        \<and> logins (snd (log_login s token ip ua now)) = logins s
      \<or> (\<exists>h. hash_token token = Inr h
            \<and> fst (log_login s token ip ua now) = Inr ()
            \<and> logins (snd (log_login s token ip ua now)) = logins s @
                [\<lparr>login_id = Suc (logins_seq s), token_hash = h, ip_address = ip,
                  user_agent = take 200 (case ua of None \<Rightarrow> [] | Some x \<Rightarrow> x),
                  timestamp = isoformat now\<rparr>]))
   \<and> (\<forall>s'. step s s' \<longrightarrow>
        (\<forall>r\<in>set (logins s'). r \<in> set (logins s) \<or>
            (\<exists>token ip ua now h. hash_token token = Inr h \<and>
               r = \<lparr>login_id = Suc (logins_seq s), token_hash = h, ip_address = ip,
                     user_agent = take 200 (case ua of None \<Rightarrow> [] | Some x \<Rightarrow> x),
                     timestamp = isoformat now\<rparr>))
        \<and> (\<forall>r\<in>set (tokens s'). r \<in> set (tokens s) \<or>
            (\<exists>rnd now expires h. hash_token (lit ''d2d_'' @ token_urlsafe rnd 24) = Inr h \<and>
               add_days 28 now = Inr expires \<and>
               r = \<lparr>hash = h, created_at = isoformat now, expires_at = isoformat expires\<rparr>)))"
proof (intro conjI allI impI)
  show "tokens (snd (log_login s token ip ua now)) = tokens s"
    by (rule log_login_tables(1))
next
  obtain r s1 where l: "log_login s token ip ua now = (r, s1)"
    by (cases "log_login s token ip ua now")
  show "(fst (log_login s token ip ua now) = Inl UnicodeEncodeError
          \<or> fst (log_login s token ip ua now) = Inl OperationalError)
        \<and> logins (snd (log_login s token ip ua now)) = logins s
      \<or> (\<exists>h. hash_token token = Inr h
            \<and> fst (log_login s token ip ua now) = Inr ()
            \<and> logins (snd (log_login s token ip ua now)) = logins s @
                [\<lparr>login_id = Suc (logins_seq s), token_hash = h, ip_address = ip,
                  user_agent = take 200 (case ua of None \<Rightarrow> [] | Some x \<Rightarrow> x),
                  timestamp = isoformat now\<rparr>])"
  proof (cases r)
    case (Inl e)
    then show ?thesis using log_login_Inl [of s token ip ua now e s1] l by auto
  next
    case (Inr u)
    then have "log_login s token ip ua now = (Inr (), s1)" using l by simp
    from log_login_Inr [OF this] show ?thesis using l Inr by auto
  qed
next
  fix s' assume "step s s'"
  from step_rows [OF this]
  show "\<forall>r\<in>set (logins s'). r \<in> set (logins s) \<or>
            (\<exists>token ip ua now h. hash_token token = Inr h \<and>
               r = \<lparr>login_id = Suc (logins_seq s), token_hash = h, ip_address = ip,
                     user_agent = take 200 (case ua of None \<Rightarrow> [] | Some x \<Rightarrow> x),
                     timestamp = isoformat now\<rparr>)"
    and "\<forall>r\<in>set (tokens s'). r \<in> set (tokens s) \<or>
            (\<exists>rnd now expires h. hash_token (lit ''d2d_'' @ token_urlsafe rnd 24) = Inr h \<and>
               add_days 28 now = Inr expires \<and>
               r = \<lparr>hash = h, created_at = isoformat now, expires_at = isoformat expires\<rparr>)"
    by blast+
qed

theorem only_login_metadata_stored_witness:
  "valid_datetime (mk_datetime 2024 2 10 9 5 0 1234)
   \<and> step init_database
        (snd (log_login init_database (lit ''d2d_abc123'') (lit ''1.2.3.4'')
                (Some (lit ''Mozilla/5.0'')) (mk_datetime 2024 2 10 9 5 0 1234)))
   \<and> fst (log_login init_database (lit ''d2d_abc123'') (lit ''1.2.3.4'')
             (Some (lit ''Mozilla/5.0'')) (mk_datetime 2024 2 10 9 5 0 1234)) = Inr ()
   \<and> tokens (snd (log_login init_database (lit ''d2d_abc123'') (lit ''1.2.3.4'')
                (Some (lit ''Mozilla/5.0'')) (mk_datetime 2024 2 10 9 5 0 1234))) = []
   \<and> logins (snd (log_login init_database (lit ''d2d_abc123'') (lit ''1.2.3.4'')
                (Some (lit ''Mozilla/5.0'')) (mk_datetime 2024 2 10 9 5 0 1234))) =
       [\<lparr>login_id = 1,
         token_hash = hexlify (sha256 [0x64, 0x32, 0x64, 0x5f, 0x61, 0x62, 0x63, 0x31, 0x32, 0x33]),
         ip_address = lit ''1.2.3.4'', user_agent = lit ''Mozilla/5.0'',
         timestamp = isoformat (mk_datetime 2024 2 10 9 5 0 1234)\<rparr>]"
proof -
  let ?now = "mk_datetime 2024 2 10 9 5 0 1234"
  let ?l = "log_login init_database (lit ''d2d_abc123'') (lit ''1.2.3.4'')
              (Some (lit ''Mozilla/5.0'')) ?now"
  have v: "valid_datetime ?now" by (simp add: calendar_eval)
  have st: "step init_database (snd ?l)" by (rule step_log [OF v])
  have ok: "fst ?l = Inr ()"
    by (simp add: log_login_eq [OF hash_token_example] Let_def init_database_def max_rowid_def)
       (simp add: encodable_def scalar_value_def lit_def)
  have len: "take 200 (lit ''Mozilla/5.0'') = lit ''Mozilla/5.0''"
    by (simp add: lit_def)
  show ?thesis
    using v st ok
      only_login_metadata_stored
        [of init_database "lit ''d2d_abc123''" "lit ''1.2.3.4''" "Some (lit ''Mozilla/5.0'')" ?now]
    by (auto simp: hash_token_example init_database_def len)
qed

text \<open>
  Claim C2. When \<open>generate_token\<close> returns \<open>(plaintext, h)\<close>, then \<open>h\<close> is the hash of
  \<open>plaintext\<close>; the tokens table has gained exactly one row, made of \<open>h\<close>, the time of
  issuance and that time plus 28 days; \<open>verify_token\<close> on the new store returns \<open>True\<close>
  for \<open>plaintext\<close> at the time of issuance and at every time before the expiry; and none
  of the three fields of the row is the plaintext.
\<close>

theorem generate_then_verify:
  assumes "valid_datetime now" "generate_token s rnd now = (Inr (plaintext, h), s')"
  shows "hash_token plaintext = Inr h
         \<and> (\<exists>expires. add_days 28 now = Inr expires
              \<and> tokens s' = tokens s @ [\<lparr>hash = h, created_at = isoformat now,
                                         expires_at = isoformat expires\<rparr>]
              \<and> isoformat expires \<noteq> plaintext
              \<and> (\<forall>now'. dt_less now' expires \<longrightarrow>
                     fst (verify_token s' (Some plaintext) now') = Inr True))
         \<and> fst (verify_token s' (Some plaintext) now) = Inr True
         \<and> h \<noteq> plaintext \<and> isoformat now \<noteq> plaintext"
proof -
  from generate_token_Inr [OF assms(2)] obtain expires where
    p: "plaintext = lit ''d2d_'' @ token_urlsafe rnd 24" and
    h: "hash_token plaintext = Inr h" and
    fresh: "h \<notin> set (map hash (tokens s))" and
    e: "add_days 28 now = Inr expires" and
    t: "tokens s' = tokens s @ [\<lparr>hash = h, created_at = isoformat now,
                                 expires_at = isoformat expires\<rparr>]"
    by blast
  have ne: "plaintext \<noteq> []" by (simp add: p lit_prefix)
  have pre: "startswith plaintext (lit ''d2d_'')" unfolding p by (rule startswith_prefix)
  have ve: "valid_datetime expires" by (rule add_days_valid [OF assms(1) e])
  have "filter (\<lambda>r. hash r = h) (tokens s) = []"
    using fresh by (auto simp: filter_empty_conv)
  then have f: "filter (\<lambda>r. hash r = h) (tokens s') =
      [\<lparr>hash = h, created_at = isoformat now, expires_at = isoformat expires\<rparr>]"
    by (simp add: t)
  have v: "fst (verify_token s' (Some plaintext) n) = Inr (dt_less n expires)" for n
    by (simp add: verify_token_eq [OF ne pre h] f fromisoformat_isoformat [OF ve])
  have "dt_less now expires" using add_days_less [OF e] by simp
  then have now: "fst (verify_token s' (Some plaintext) now) = Inr True" by (simp add: v)
  have hex: "h \<noteq> plaintext"
    unfolding p using hash_token_Inr [OF h] by (simp add: plaintext_not_hex)
  show ?thesis
    using h e t now hex plaintext_not_iso [of _ "token_urlsafe rnd 24"] v
    by (auto simp: p)
qed

theorem generate_then_verify_witness:
  "valid_datetime (mk_datetime 2024 2 10 9 5 0 1234)
   \<and> generate_token init_database (\<lambda>i. 37 * of_nat i + 250) (mk_datetime 2024 2 10 9 5 0 1234) =
       (Inr (lit ''d2d_-h9EaY6z2P0iR2yRttsAJUpvlLneAyhN'',
             projr (hash_token (lit ''d2d_-h9EaY6z2P0iR2yRttsAJUpvlLneAyhN''))),
        \<lparr>tokens =
           [\<lparr>hash = projr (hash_token (lit ''d2d_-h9EaY6z2P0iR2yRttsAJUpvlLneAyhN'')),
             created_at = isoformat (mk_datetime 2024 2 10 9 5 0 1234),
             expires_at = isoformat (mk_datetime 2024 3 9 9 5 0 1234)\<rparr>],
         logins = [], logins_seq = 0,
         journal =
           [Connect,
            Execute (InsertToken
              (projr (hash_token (lit ''d2d_-h9EaY6z2P0iR2yRttsAJUpvlLneAyhN'')))
              (isoformat (mk_datetime 2024 2 10 9 5 0 1234))
              (isoformat (mk_datetime 2024 3 9 9 5 0 1234))),
            Commit, Close]\<rparr>)
   \<and> fst (verify_token
        (snd (generate_token init_database (\<lambda>i. 37 * of_nat i + 250)
               (mk_datetime 2024 2 10 9 5 0 1234)))
        (Some (lit ''d2d_-h9EaY6z2P0iR2yRttsAJUpvlLneAyhN''))
        (mk_datetime 2024 2 10 9 5 0 1234)) = Inr True
   \<and> dt_less (mk_datetime 2024 3 9 9 5 0 1233) (mk_datetime 2024 3 9 9 5 0 1234)
   \<and> fst (verify_token
        (snd (generate_token init_database (\<lambda>i. 37 * of_nat i + 250)
               (mk_datetime 2024 2 10 9 5 0 1234)))
        (Some (lit ''d2d_-h9EaY6z2P0iR2yRttsAJUpvlLneAyhN''))
        (mk_datetime 2024 3 9 9 5 0 1233)) = Inr True"
proof -
  let ?rnd = "\<lambda>i. 37 * of_nat i + 250 :: byte"
  let ?now = "mk_datetime 2024 2 10 9 5 0 1234"
  let ?p = "lit ''d2d_-h9EaY6z2P0iR2yRttsAJUpvlLneAyhN''"
  have p: "lit ''d2d_'' @ token_urlsafe ?rnd 24 = ?p"
    by (simp add: token_urlsafe_example) (simp add: lit_def)
  obtain h where h: "hash_token ?p = Inr h"
    using token_hash_exists [of ?rnd] by (auto simp: p)
  have v: "valid_datetime ?now" by (simp add: calendar_eval)
  have e: "add_days 28 ?now = Inr (mk_datetime 2024 3 9 9 5 0 1234)"
    by (simp add: calendar_eval)
  have g: "generate_token init_database ?rnd ?now =
       (Inr (?p, h),
        \<lparr>tokens =
           [\<lparr>hash = h, created_at = isoformat ?now,
             expires_at = isoformat (mk_datetime 2024 3 9 9 5 0 1234)\<rparr>],
         logins = [], logins_seq = 0,
         journal =
           [Connect,
            Execute (InsertToken h (isoformat ?now)
              (isoformat (mk_datetime 2024 3 9 9 5 0 1234))),
            Commit, Close]\<rparr>)"
    using h by (simp add: generate_token_eq [of ?rnd h] p e init_database_def logged_def)
  have l: "dt_less (mk_datetime 2024 3 9 9 5 0 1233) (mk_datetime 2024 3 9 9 5 0 1234)"
    by (simp add: calendar_eval)
  show ?thesis
    using generate_then_verify [OF v g] v g l e by (simp add: h)
qed

text \<open>
  Claim C3. For a non-empty candidate with the prefix \<open>d2d_\<close> (whose hash is \<open>h\<close>),
  \<open>verify_token\<close> returns \<open>True\<close> exactly when the tokens table has a row with that
  hash and the clock is strictly before the \<open>expires_at\<close> of that row. In particular,
  for such a row it returns \<open>False\<close> at the instant of expiry and at any later time, and
  \<open>True\<close> at any earlier time.
\<close>

theorem verify_token_iff_unexpired_row:
  assumes "store_ok s" "t \<noteq> []" "startswith t (lit ''d2d_'')" "hash_token t = Inr h"
  shows "fst (verify_token s (Some t) now) =
           Inr (\<exists>r\<in>set (tokens s). hash r = h \<and>
                  (\<exists>expires. fromisoformat (expires_at r) = Inr expires \<and> dt_less now expires))
         \<and> (\<forall>r\<in>set (tokens s). \<forall>expires.
               hash r = h \<and> fromisoformat (expires_at r) = Inr expires \<longrightarrow>
                 fst (verify_token s (Some t) expires) = Inr False
                 \<and> (dt_less expires now \<longrightarrow> fst (verify_token s (Some t) now) = Inr False)
                 \<and> (dt_less now expires \<longrightarrow> fst (verify_token s (Some t) now) = Inr True))"
proof (intro conjI ballI allI impI)
  show "fst (verify_token s (Some t) now) =
           Inr (\<exists>r\<in>set (tokens s). hash r = h \<and>
                  (\<exists>expires. fromisoformat (expires_at r) = Inr expires \<and> dt_less now expires))"
    by (rule verify_token_lookup [OF assms])
next
  fix r expires
  assume r: "r \<in> set (tokens s)" "hash r = h \<and> fromisoformat (expires_at r) = Inr expires"
  have d: "distinct (map hash (tokens s))" using assms(1) by (simp add: store_ok_def)
  have f: "filter (\<lambda>x. hash x = h) (tokens s) = [r]"
    using filter_key_distinct [OF d r(1)] r(2) by simp
  have v: "fst (verify_token s (Some t) n) = Inr (dt_less n expires)" for n
    using f r(2) by (simp add: verify_token_eq [OF assms(2,3,4)])
  show "fst (verify_token s (Some t) expires) = Inr False" by (simp add: v)
  show "fst (verify_token s (Some t) now) = Inr False" if "dt_less expires now"
    using that dt_less_asym by (simp add: v)
  show "fst (verify_token s (Some t) now) = Inr True" if "dt_less now expires"
    using that by (simp add: v)
qed

theorem verify_token_iff_unexpired_row_witness:
  "store_ok
     (init_database\<lparr>tokens :=
        [\<lparr>hash = hexlify (sha256 [0x64, 0x32, 0x64, 0x5f, 0x61, 0x62, 0x63, 0x31, 0x32, 0x33]),
          created_at = isoformat (mk_datetime 2024 1 15 10 0 0 0),
          expires_at = isoformat (mk_datetime 2024 2 12 10 0 0 0)\<rparr>]\<rparr>)
   \<and> lit ''d2d_abc123'' \<noteq> []
   \<and> startswith (lit ''d2d_abc123'') (lit ''d2d_'')
   \<and> hash_token (lit ''d2d_abc123'') =
       Inr (hexlify (sha256 [0x64, 0x32, 0x64, 0x5f, 0x61, 0x62, 0x63, 0x31, 0x32, 0x33]))
   \<and> fst (verify_token
        (init_database\<lparr>tokens :=
          [\<lparr>hash = hexlify (sha256 [0x64, 0x32, 0x64, 0x5f, 0x61, 0x62, 0x63, 0x31, 0x32, 0x33]),
            created_at = isoformat (mk_datetime 2024 1 15 10 0 0 0),
            expires_at = isoformat (mk_datetime 2024 2 12 10 0 0 0)\<rparr>]\<rparr>)
        (Some (lit ''d2d_abc123'')) (mk_datetime 2024 2 12 9 59 59 999999)) = Inr True
   \<and> fst (verify_token
        (init_database\<lparr>tokens :=
          [\<lparr>hash = hexlify (sha256 [0x64, 0x32, 0x64, 0x5f, 0x61, 0x62, 0x63, 0x31, 0x32, 0x33]),
            created_at = isoformat (mk_datetime 2024 1 15 10 0 0 0),
            expires_at = isoformat (mk_datetime 2024 2 12 10 0 0 0)\<rparr>]\<rparr>)
        (Some (lit ''d2d_abc123'')) (mk_datetime 2024 2 12 10 0 0 0)) = Inr False
   \<and> fst (verify_token init_database (Some (lit ''d2d_abc123''))
        (mk_datetime 2024 2 12 9 59 59 999999)) = Inr False"
proof -
  let ?h = "hexlify (sha256 [0x64, 0x32, 0x64, 0x5f, 0x61, 0x62, 0x63, 0x31, 0x32, 0x33])"
  let ?e = "mk_datetime 2024 2 12 10 0 0 0"
  let ?s = "init_database\<lparr>tokens :=
        [\<lparr>hash = ?h, created_at = isoformat (mk_datetime 2024 1 15 10 0 0 0),
          expires_at = isoformat ?e\<rparr>]\<rparr>"
  have v: "valid_datetime (mk_datetime 2024 1 15 10 0 0 0)" "valid_datetime ?e"
    by (simp_all add: calendar_eval)
  have ok: "store_ok ?s"
    using v [THEN iso_text_isoformat] by (simp add: store_ok_def init_database_def)
  have ok0: "store_ok init_database"
    by (simp add: store_ok_def init_database_def)
  have ne: "lit ''d2d_abc123'' \<noteq> []" by (simp add: lit_def)
  have pre: "startswith (lit ''d2d_abc123'') (lit ''d2d_'')"
    by (simp add: startswith_def lit_def)
  have p: "fromisoformat (isoformat ?e) = Inr ?e"
    by (rule fromisoformat_isoformat [OF v(2)])
  have a: "fst (verify_token ?s (Some (lit ''d2d_abc123'')) (mk_datetime 2024 2 12 9 59 59 999999))
      = Inr True"
    using verify_token_iff_unexpired_row
      [OF ok ne pre hash_token_example, of "mk_datetime 2024 2 12 9 59 59 999999"]
    by (simp add: init_database_def p) (simp add: calendar_eval)
  have b: "fst (verify_token ?s (Some (lit ''d2d_abc123'')) ?e) = Inr False"
    using verify_token_iff_unexpired_row [OF ok ne pre hash_token_example, of ?e]
    by (simp add: init_database_def p)
  have c: "fst (verify_token init_database (Some (lit ''d2d_abc123''))
        (mk_datetime 2024 2 12 9 59 59 999999)) = Inr False"
    using verify_token_iff_unexpired_row
      [OF ok0 ne pre hash_token_example, of "mk_datetime 2024 2 12 9 59 59 999999"]
    by (simp add: init_database_def)
  show ?thesis
    using ok ne pre hash_token_example a b c by (intro conjI)
qed

text \<open>
  Claim C4. A candidate that is \<open>None\<close>, empty, or does not start with \<open>d2d_\<close> is
  refused with \<open>False\<close>, and the store that comes back is the store that went in, its
  journal of accesses included: no connection was opened and no statement was run.
\<close>

theorem verify_token_rejects_without_access:
  assumes "token = None \<or> token = Some [] \<or> (\<exists>t. token = Some t \<and> \<not> startswith t (lit ''d2d_''))"
  shows "verify_token s token now = (Inr False, s)"
  using assms by (auto simp: verify_token_def)

theorem verify_token_rejects_without_access_witness:
  "verify_token init_database None
     (mk_datetime 2024 2 10 9 5 0 0)
     = (Inr False, init_database)
   \<and> verify_token init_database (Some [])
     (mk_datetime 2024 2 10 9 5 0 0)
     = (Inr False, init_database)
   \<and> \<not> startswith (lit ''wrong-prefix-xyz'') (lit ''d2d_'')
   \<and> verify_token init_database (Some (lit ''wrong-prefix-xyz''))
     (mk_datetime 2024 2 10 9 5 0 0)
     = (Inr False, init_database)"
proof -
  have bad: "\<not> startswith (lit ''wrong-prefix-xyz'') (lit ''d2d_'')"
    by (simp add: startswith_def lit_def)
  show ?thesis
    using bad
      verify_token_rejects_without_access [of None]
      verify_token_rejects_without_access [of "Some []"]
      verify_token_rejects_without_access [of "Some (lit ''wrong-prefix-xyz'')"]
    by blast
qed

text \<open>
  Claim C5. Whatever the candidate, the store and the clock, and whatever
  \<open>verify_token\<close> returns or raises, the two tables and the id counter of the store
  that comes back are those of the store that went in.
\<close>

theorem verify_token_frame:
  "tokens (snd (verify_token s token now)) = tokens s
   \<and> logins (snd (verify_token s token now)) = logins s
   \<and> logins_seq (snd (verify_token s token now)) = logins_seq s"
  by (rule verify_token_tables)

text \<open>
  Claim C6. When \<open>generate_token\<close> returns at clock reading \<open>now\<close>, \<open>now + 28 days\<close>
  exists and the row it stored has \<open>created_at = now\<close> and
  \<open>expires_at = now + 28 days\<close>. After any run of the system from there (any sequence
  of the four operations, with any arguments), that same row is still in the tokens table
  and it is the only row with its hash: nothing has changed its expiry.
\<close>

theorem expiry_fixed_at_issuance:
  assumes "valid_datetime now" "generate_token s rnd now = (Inr (plaintext, h), s1)" "run s1 s2"
  shows "\<exists>expires. add_days 28 now = Inr expires
           \<and> (\<exists>row. row \<in> set (tokens s1) \<and> hash row = h
                \<and> fromisoformat (created_at row) = Inr now
                \<and> fromisoformat (expires_at row) = Inr expires
                \<and> row \<in> set (tokens s2)
                \<and> (\<forall>r\<in>set (tokens s2). hash r = h \<longrightarrow> r = row))"
proof -
  from generate_token_Inr [OF assms(2)] obtain expires where
    fresh: "h \<notin> set (map hash (tokens s))" and
    e: "add_days 28 now = Inr expires" and
    t: "tokens s1 = tokens s @ [\<lparr>hash = h, created_at = isoformat now,
                                 expires_at = isoformat expires\<rparr>]"
    by blast
  let ?row = "\<lparr>hash = h, created_at = isoformat now, expires_at = isoformat expires\<rparr>"
  obtain ys where ys: "tokens s2 = tokens s1 @ ys"
    "set (map hash ys) \<inter> set (map hash (tokens s1)) = {}"
    using run_tokens [OF assms(3)] by blast
  have ve: "valid_datetime expires" by (rule add_days_valid [OF assms(1) e])
  have hy: "h \<notin> hash ` set ys"
  proof
    assume "h \<in> hash ` set ys"
    moreover have "h \<in> hash ` set (tokens s1)" by (simp add: t)
    ultimately show False using ys(2) by auto
  qed
  have u: "r = ?row" if "r \<in> set (tokens s2)" "hash r = h" for r
  proof -
    from that(1) have "r \<in> set (tokens s) \<or> r = ?row \<or> r \<in> set ys"
      by (simp only: ys(1) t set_append) auto
    moreover have "r \<notin> set (tokens s)" using fresh that(2) by auto
    moreover have "r \<notin> set ys" using hy that(2) by auto
    ultimately show ?thesis by blast
  qed
  have m: "?row \<in> set (tokens s1)" "?row \<in> set (tokens s2)" by (simp_all add: ys(1) t)
  have c: "fromisoformat (created_at ?row) = Inr now"
    "fromisoformat (expires_at ?row) = Inr expires"
    using fromisoformat_isoformat [OF assms(1)] fromisoformat_isoformat [OF ve] by simp_all
  have "?row \<in> set (tokens s1) \<and> hash ?row = h
        \<and> fromisoformat (created_at ?row) = Inr now
        \<and> fromisoformat (expires_at ?row) = Inr expires
        \<and> ?row \<in> set (tokens s2)
        \<and> (\<forall>r\<in>set (tokens s2). hash r = h \<longrightarrow> r = ?row)"
  proof (intro conjI ballI impI)
    show "?row \<in> set (tokens s1)" "?row \<in> set (tokens s2)" by (rule m)+
    show "hash ?row = h" by simp
    show "fromisoformat (created_at ?row) = Inr now"
      "fromisoformat (expires_at ?row) = Inr expires" by (rule c)+
    show "r = ?row" if "r \<in> set (tokens s2)" "hash r = h" for r
      using that by (rule u)
  qed
  then show ?thesis using e by blast
qed

theorem expiry_fixed_at_issuance_witness:
  "valid_datetime (mk_datetime 2024 2 10 9 5 0 1234)
   \<and> generate_token init_database (\<lambda>i. 37 * of_nat i + 250) (mk_datetime 2024 2 10 9 5 0 1234) =
       (Inr (lit ''d2d_-h9EaY6z2P0iR2yRttsAJUpvlLneAyhN'',
             projr (hash_token (lit ''d2d_-h9EaY6z2P0iR2yRttsAJUpvlLneAyhN''))),
        snd (generate_token init_database (\<lambda>i. 37 * of_nat i + 250)
               (mk_datetime 2024 2 10 9 5 0 1234)))
   \<and> run (snd (generate_token init_database (\<lambda>i. 37 * of_nat i + 250)
               (mk_datetime 2024 2 10 9 5 0 1234)))
         (snd (cleanup_old_logins
           (snd (log_login
             (snd (generate_token init_database (\<lambda>i. 37 * of_nat i + 250)
                    (mk_datetime 2024 2 10 9 5 0 1234)))
             (lit ''d2d_-h9EaY6z2P0iR2yRttsAJUpvlLneAyhN'') (lit ''1.2.3.4'') None
             (mk_datetime 2024 2 11 8 0 0 0)))
           (mk_datetime 2024 6 2 12 0 0 0)))
   \<and> (\<exists>expires. add_days 28 (mk_datetime 2024 2 10 9 5 0 1234) = Inr expires
        \<and> (\<exists>row. row \<in> set (tokens
               (snd (generate_token init_database (\<lambda>i. 37 * of_nat i + 250)
                      (mk_datetime 2024 2 10 9 5 0 1234))))
             \<and> hash row = projr (hash_token (lit ''d2d_-h9EaY6z2P0iR2yRttsAJUpvlLneAyhN''))
             \<and> fromisoformat (created_at row) = Inr (mk_datetime 2024 2 10 9 5 0 1234)
             \<and> fromisoformat (expires_at row) = Inr expires
             \<and> row \<in> set (tokens
                 (snd (cleanup_old_logins
                   (snd (log_login
                     (snd (generate_token init_database (\<lambda>i. 37 * of_nat i + 250)
                            (mk_datetime 2024 2 10 9 5 0 1234)))
                     (lit ''d2d_-h9EaY6z2P0iR2yRttsAJUpvlLneAyhN'') (lit ''1.2.3.4'') None
                     (mk_datetime 2024 2 11 8 0 0 0)))
                   (mk_datetime 2024 6 2 12 0 0 0))))
             \<and> (\<forall>r\<in>set (tokens
                   (snd (cleanup_old_logins
                     (snd (log_login
                       (snd (generate_token init_database (\<lambda>i. 37 * of_nat i + 250)
                              (mk_datetime 2024 2 10 9 5 0 1234)))
                       (lit ''d2d_-h9EaY6z2P0iR2yRttsAJUpvlLneAyhN'') (lit ''1.2.3.4'') None
                       (mk_datetime 2024 2 11 8 0 0 0)))
                     (mk_datetime 2024 6 2 12 0 0 0)))).
                   hash r = projr (hash_token (lit ''d2d_-h9EaY6z2P0iR2yRttsAJUpvlLneAyhN''))
                   \<longrightarrow> r = row)))"
proof -
  let ?now = "mk_datetime 2024 2 10 9 5 0 1234"
  let ?g = "generate_token init_database (\<lambda>i. 37 * of_nat i + 250) ?now"
  let ?p = "lit ''d2d_-h9EaY6z2P0iR2yRttsAJUpvlLneAyhN''"
  let ?s2 = "snd (log_login (snd ?g) ?p (lit ''1.2.3.4'') None (mk_datetime 2024 2 11 8 0 0 0))"
  let ?s3 = "snd (cleanup_old_logins ?s2 (mk_datetime 2024 6 2 12 0 0 0))"
  have v: "valid_datetime ?now" "valid_datetime (mk_datetime 2024 2 11 8 0 0 0)"
    "valid_datetime (mk_datetime 2024 6 2 12 0 0 0)"
    by (simp_all add: calendar_eval)
  have g: "?g = (Inr (?p, projr (hash_token ?p)), snd ?g)"
    by (simp add: generate_token_example)
  have "step (snd ?g) ?s2" by (rule step_log [OF v(2)])
  moreover have "step ?s2 ?s3" by (rule step_cleanup [OF v(3)])
  ultimately have r: "run (snd ?g) ?s3" unfolding run_def by (rule converse_rtranclp_into_rtranclp [OF _ r_into_rtranclp])
  show ?thesis
    using v(1) g r expiry_fixed_at_issuance [OF v(1) g r] by (intro conjI)
qed

text \<open>
  Claim C7. When the clock reads \<open>now\<close> and \<open>now - 90 days\<close> is the datetime
  \<open>cutoff\<close>, \<open>cleanup_old_logins\<close> returns normally and the logins table that it
  leaves is the old one without the rows whose timestamp is strictly before \<open>cutoff\<close>:
  those rows are deleted, every other row stays as it was, in its place. The tokens table
  and the id counter are unchanged.
\<close>

theorem cleanup_deletes_exactly_old:
  assumes "store_ok s" "valid_datetime now" "sub_days 90 now = Inr cutoff"
  shows "fst (cleanup_old_logins s now) = Inr ()
         \<and> logins (snd (cleanup_old_logins s now)) =
             filter (\<lambda>r. \<not> (\<exists>t. fromisoformat (timestamp r) = Inr t \<and> dt_less t cutoff))
               (logins s)
         \<and> tokens (snd (cleanup_old_logins s now)) = tokens s
         \<and> logins_seq (snd (cleanup_old_logins s now)) = logins_seq s"
proof -
  have c: "valid_datetime cutoff" by (rule sub_days_valid [OF assms(2,3)])
  have "filter (\<lambda>r. \<not> text_less (timestamp r) (isoformat cutoff)) (logins s) =
        filter (\<lambda>r. \<not> (\<exists>t. fromisoformat (timestamp r) = Inr t \<and> dt_less t cutoff)) (logins s)"
  proof (rule filter_cong [OF refl])
    fix r assume "r \<in> set (logins s)"
    then have "iso_text (timestamp r)"
      using assms(1) by (simp add: store_ok_def list_all_iff)
    then show "(\<not> text_less (timestamp r) (isoformat cutoff)) =
        (\<not> (\<exists>t. fromisoformat (timestamp r) = Inr t \<and> dt_less t cutoff))"
      by (simp only: older_iff [OF _ c])
  qed
  then show ?thesis
    by (simp add: cleanup_old_logins_eq assms(3))
qed

theorem cleanup_deletes_exactly_old_witness:
  "store_ok
     (init_database\<lparr>logins :=
        [\<lparr>login_id = 1, token_hash = lit ''aa'', ip_address = lit ''1.2.3.4'', user_agent = [],
          timestamp = isoformat (mk_datetime 2024 3 4 11 59 59 999999)\<rparr>,
         \<lparr>login_id = 2, token_hash = lit ''aa'', ip_address = lit ''1.2.3.4'', user_agent = [],
          timestamp = isoformat (mk_datetime 2024 3 4 12 0 0 0)\<rparr>,
         \<lparr>login_id = 3, token_hash = lit ''bb'', ip_address = lit ''5.6.7.8'', user_agent = [],
          timestamp = isoformat (mk_datetime 2024 5 2 8 30 0 250000)\<rparr>],
        logins_seq := 3\<rparr>)
   \<and> valid_datetime (mk_datetime 2024 6 2 12 0 0 0)
   \<and> sub_days 90 (mk_datetime 2024 6 2 12 0 0 0) = Inr (mk_datetime 2024 3 4 12 0 0 0)
   \<and> logins (snd (cleanup_old_logins
        (init_database\<lparr>logins :=
          [\<lparr>login_id = 1, token_hash = lit ''aa'', ip_address = lit ''1.2.3.4'', user_agent = [],
            timestamp = isoformat (mk_datetime 2024 3 4 11 59 59 999999)\<rparr>,
           \<lparr>login_id = 2, token_hash = lit ''aa'', ip_address = lit ''1.2.3.4'', user_agent = [],
            timestamp = isoformat (mk_datetime 2024 3 4 12 0 0 0)\<rparr>,
           \<lparr>login_id = 3, token_hash = lit ''bb'', ip_address = lit ''5.6.7.8'', user_agent = [],
            timestamp = isoformat (mk_datetime 2024 5 2 8 30 0 250000)\<rparr>],
          logins_seq := 3\<rparr>)
        (mk_datetime 2024 6 2 12 0 0 0))) =
       [\<lparr>login_id = 2, token_hash = lit ''aa'', ip_address = lit ''1.2.3.4'', user_agent = [],
         timestamp = isoformat (mk_datetime 2024 3 4 12 0 0 0)\<rparr>,
        \<lparr>login_id = 3, token_hash = lit ''bb'', ip_address = lit ''5.6.7.8'', user_agent = [],
         timestamp = isoformat (mk_datetime 2024 5 2 8 30 0 250000)\<rparr>]"
proof -
  let ?t1 = "mk_datetime 2024 3 4 11 59 59 999999"
  let ?t2 = "mk_datetime 2024 3 4 12 0 0 0"
  let ?t3 = "mk_datetime 2024 5 2 8 30 0 250000"
  let ?now = "mk_datetime 2024 6 2 12 0 0 0"
  let ?s = "init_database\<lparr>logins :=
        [\<lparr>login_id = 1, token_hash = lit ''aa'', ip_address = lit ''1.2.3.4'', user_agent = [],
          timestamp = isoformat ?t1\<rparr>,
         \<lparr>login_id = 2, token_hash = lit ''aa'', ip_address = lit ''1.2.3.4'', user_agent = [],
          timestamp = isoformat ?t2\<rparr>,
         \<lparr>login_id = 3, token_hash = lit ''bb'', ip_address = lit ''5.6.7.8'', user_agent = [],
          timestamp = isoformat ?t3\<rparr>],
        logins_seq := 3\<rparr>"
  have v: "valid_datetime ?t1" "valid_datetime ?t2" "valid_datetime ?t3"
    by (simp_all add: calendar_eval)
  note p = v [THEN fromisoformat_isoformat]
  have now: "valid_datetime ?now" by (simp add: calendar_eval)
  have ok: "store_ok ?s"
    using v [THEN iso_text_isoformat] by (simp add: store_ok_def init_database_def)
  have cut: "sub_days 90 ?now = Inr ?t2" by (simp add: calendar_eval)
  have old: "dt_less ?t1 ?t2" "\<not> dt_less ?t2 ?t2" "\<not> dt_less ?t3 ?t2"
    by (simp_all add: calendar_eval)
  have "logins (snd (cleanup_old_logins ?s ?now)) =
       [\<lparr>login_id = 2, token_hash = lit ''aa'', ip_address = lit ''1.2.3.4'', user_agent = [],
         timestamp = isoformat ?t2\<rparr>,
        \<lparr>login_id = 3, token_hash = lit ''bb'', ip_address = lit ''5.6.7.8'', user_agent = [],
         timestamp = isoformat ?t3\<rparr>]"
    using cleanup_deletes_exactly_old [OF ok now cut] old
    by (simp add: init_database_def p)
  then show ?thesis using ok now cut by (intro conjI)
qed

text \<open>
  Claim C8, amended. After a run of \<open>cleanup_old_logins\<close> that returned, a second run
  with no login recorded in between, at a clock reading that is not later than that of
  the first run, deletes nothing: the logins table, the tokens table and the id counter
  are those the first run left. (When the clock has advanced, the second run computes a
  later cutoff; the counterexample below is such a run, and it deletes a row.)
\<close>

theorem cleanup_twice_clock_not_advanced:
  assumes "valid_datetime now1" "valid_datetime now2" "\<not> dt_less now1 now2"
    and "fst (cleanup_old_logins s now1) = Inr ()"
  shows "logins (snd (cleanup_old_logins (snd (cleanup_old_logins s now1)) now2)) =
           logins (snd (cleanup_old_logins s now1))
         \<and> tokens (snd (cleanup_old_logins (snd (cleanup_old_logins s now1)) now2)) =
           tokens (snd (cleanup_old_logins s now1))
         \<and> logins_seq (snd (cleanup_old_logins (snd (cleanup_old_logins s now1)) now2)) =
           logins_seq (snd (cleanup_old_logins s now1))"
proof -
  from assms(4) obtain c1 where c1: "sub_days 90 now1 = Inr c1"
    by (cases "sub_days 90 now1") (simp_all add: cleanup_old_logins_eq)
  let ?s1 = "snd (cleanup_old_logins s now1)"
  have l1: "logins ?s1 = filter (\<lambda>r. \<not> text_less (timestamp r) (isoformat c1)) (logins s)"
    by (simp add: cleanup_old_logins_eq c1)
  show ?thesis
  proof (cases "sub_days 90 now2")
    case (Inl e)
    then show ?thesis by (simp add: cleanup_old_logins_eq [of ?s1])
  next
    case (Inr c2)
    have v: "valid_datetime c1" "valid_datetime c2"
      using sub_days_valid [OF assms(1) c1] sub_days_valid [OF assms(2) Inr] by simp_all
    have "\<not> dt_less c1 c2"
      by (rule sub_days_mono [OF assms(2,1,3) Inr c1])
    then have le: "\<not> text_less (isoformat c1) (isoformat c2)"
      by (simp add: isoformat_less [OF v])
    have "filter (\<lambda>r. \<not> text_less (timestamp r) (isoformat c2)) (logins ?s1) = logins ?s1"
    proof -
      have "\<not> text_less (timestamp r) (isoformat c2)"
        if "\<not> text_less (timestamp r) (isoformat c1)" for r :: login_row
        using that le text_less_total_trans by blast
      then have "(\<not> text_less (timestamp r) (isoformat c1) \<and>
            \<not> text_less (timestamp r) (isoformat c2)) =
          (\<not> text_less (timestamp r) (isoformat c1))" for r :: login_row
        by blast
      then show ?thesis by (simp add: l1)
    qed
    then show ?thesis by (simp add: cleanup_old_logins_eq [of ?s1] Inr)
  qed
qed

theorem cleanup_twice_clock_not_advanced_witness:
  "valid_datetime (mk_datetime 2024 6 2 12 0 0 0)
   \<and> \<not> dt_less (mk_datetime 2024 6 2 12 0 0 0) (mk_datetime 2024 6 2 12 0 0 0)
   \<and> fst (cleanup_old_logins
        (snd (log_login init_database (lit ''d2d_abc123'') (lit ''1.2.3.4'') None
               (mk_datetime 2024 3 4 12 0 0 0)))
        (mk_datetime 2024 6 2 12 0 0 0)) = Inr ()
   \<and> logins (snd (cleanup_old_logins
        (snd (cleanup_old_logins
          (snd (log_login init_database (lit ''d2d_abc123'') (lit ''1.2.3.4'') None
                 (mk_datetime 2024 3 4 12 0 0 0)))
          (mk_datetime 2024 6 2 12 0 0 0)))
        (mk_datetime 2024 6 2 12 0 0 0))) =
       logins (snd (cleanup_old_logins
          (snd (log_login init_database (lit ''d2d_abc123'') (lit ''1.2.3.4'') None
                 (mk_datetime 2024 3 4 12 0 0 0)))
          (mk_datetime 2024 6 2 12 0 0 0)))"
proof -
  let ?now = "mk_datetime 2024 6 2 12 0 0 0"
  let ?s = "snd (log_login init_database (lit ''d2d_abc123'') (lit ''1.2.3.4'') None
               (mk_datetime 2024 3 4 12 0 0 0))"
  have v: "valid_datetime ?now" by (simp add: calendar_eval)
  have n: "\<not> dt_less ?now ?now" by simp
  have r: "fst (cleanup_old_logins ?s ?now) = Inr ()"
    by (simp add: cleanup_old_logins_eq calendar_eval)
  show ?thesis
    using v n r cleanup_twice_clock_not_advanced [OF v v n r] by (intro conjI) simp_all
qed

text \<open>
  Claim C8 as stated fails: a login recorded at 2024-03-04 12:00:00 survives a run at
  2024-06-02 12:00:00 (it is exactly 90 days old, not older), and a second run half a
  millisecond later, with nothing inserted in between and the clock not moved backwards,
  deletes it.
\<close>

theorem cleanup_twice_clock_advanced_counterexample:
  "valid_datetime (mk_datetime 2024 6 2 12 0 0 0)
   \<and> valid_datetime (mk_datetime 2024 6 2 12 0 0 500)
   \<and> \<not> dt_less (mk_datetime 2024 6 2 12 0 0 500) (mk_datetime 2024 6 2 12 0 0 0)
   \<and> fst (cleanup_old_logins
        (snd (log_login init_database (lit ''d2d_abc123'') (lit ''1.2.3.4'') None
               (mk_datetime 2024 3 4 12 0 0 0)))
        (mk_datetime 2024 6 2 12 0 0 0)) = Inr ()
   \<and> length (logins (snd (cleanup_old_logins
        (snd (log_login init_database (lit ''d2d_abc123'') (lit ''1.2.3.4'') None
               (mk_datetime 2024 3 4 12 0 0 0)))
        (mk_datetime 2024 6 2 12 0 0 0)))) = 1
   \<and> logins (snd (cleanup_old_logins
        (snd (cleanup_old_logins
          (snd (log_login init_database (lit ''d2d_abc123'') (lit ''1.2.3.4'') None
                 (mk_datetime 2024 3 4 12 0 0 0)))
          (mk_datetime 2024 6 2 12 0 0 0)))
        (mk_datetime 2024 6 2 12 0 0 500))) = []"
proof -
  let ?t = "mk_datetime 2024 3 4 12 0 0 0"
  let ?c2 = "mk_datetime 2024 3 4 12 0 0 500"
  have v: "valid_datetime ?t" "valid_datetime ?c2"
    by (simp_all add: calendar_eval)
  have c: "sub_days 90 (mk_datetime 2024 6 2 12 0 0 0) = Inr ?t"
    "sub_days 90 (mk_datetime 2024 6 2 12 0 0 500) = Inr ?c2"
    by (simp_all add: calendar_eval)
  have o: "\<not> text_less (isoformat ?t) (isoformat ?t)" "text_less (isoformat ?t) (isoformat ?c2)"
    by (simp_all add: isoformat_less [OF v(1) v(1)] isoformat_less [OF v(1) v(2)])
       (simp add: calendar_eval)
  show ?thesis
    by (intro conjI)
       (simp_all add: cleanup_old_logins_eq log_login_example c o, simp_all add: calendar_eval)
qed

text \<open>
  Claim C9. When \<open>log_login\<close> returns, the logins table has gained exactly one row: its
  \<open>token_hash\<close> is \<open>hash_token\<close> of the token, the hash under which \<open>verify_token\<close>
  looks the same token up; its \<open>timestamp\<close> is the clock reading; and its \<open>user_agent\<close>
  is the first 200 characters of the user agent given (of the empty string when none is
  given), so at most 200 characters long.
\<close>

theorem log_login_row:
  assumes "log_login s token ip ua now = (Inr (), s')"
  shows "\<exists>h. hash_token token = Inr h
           \<and> logins s' = logins s @
               [\<lparr>login_id = Suc (logins_seq s), token_hash = h, ip_address = ip,
                 user_agent = take 200 (case ua of None \<Rightarrow> [] | Some x \<Rightarrow> x),
                 timestamp = isoformat now\<rparr>]
           \<and> length (user_agent (last (logins s'))) \<le> 200
           \<and> (token \<noteq> [] \<and> startswith token (lit ''d2d_'') \<longrightarrow>
                journal (snd (verify_token s0 (Some token) now0)) =
                  journal s0 @ [Connect, Execute (SelectExpires h), Close])"
proof -
  from log_login_Inr [OF assms] obtain h where
    h: "hash_token token = Inr h" and
    s': "s' = s\<lparr>logins := logins s @
                      [\<lparr>login_id = Suc (logins_seq s), token_hash = h, ip_address = ip,
                        user_agent = take 200 (case ua of None \<Rightarrow> [] | Some x \<Rightarrow> x),
                        timestamp = isoformat now\<rparr>],
                    logins_seq := Suc (logins_seq s),
                    journal := journal s @
                      [Connect,
                       Execute (InsertLogin h ip
                         (take 200 (case ua of None \<Rightarrow> [] | Some x \<Rightarrow> x)) (isoformat now)),
                       Commit, Close]\<rparr>"
    by blast
  have "logins s' = logins s @
               [\<lparr>login_id = Suc (logins_seq s), token_hash = h, ip_address = ip,
                 user_agent = take 200 (case ua of None \<Rightarrow> [] | Some x \<Rightarrow> x),
                 timestamp = isoformat now\<rparr>]"
    by (simp add: s')
  moreover have "length (user_agent (last (logins s'))) \<le> 200"
    by (simp add: s')
  moreover have "journal (snd (verify_token s0 (Some token) now0)) =
                  journal s0 @ [Connect, Execute (SelectExpires h), Close]"
    if "token \<noteq> []" "startswith token (lit ''d2d_'')"
    by (rule verify_token_journal [OF that h])
  ultimately show ?thesis using h by blast
qed

theorem log_login_row_witness:
  "log_login init_database (lit ''d2d_abc123'') (lit ''1.2.3.4'') (Some (replicate 250 77))
       (mk_datetime 2024 2 10 9 5 0 1234) =
     (Inr (),
      snd (log_login init_database (lit ''d2d_abc123'') (lit ''1.2.3.4'') (Some (replicate 250 77))
             (mk_datetime 2024 2 10 9 5 0 1234)))
   \<and> lit ''d2d_abc123'' \<noteq> [] \<and> startswith (lit ''d2d_abc123'') (lit ''d2d_'')
   \<and> logins (snd (log_login init_database (lit ''d2d_abc123'') (lit ''1.2.3.4'')
                    (Some (replicate 250 77)) (mk_datetime 2024 2 10 9 5 0 1234))) =
       [\<lparr>login_id = 1,
         token_hash = hexlify (sha256 [0x64, 0x32, 0x64, 0x5f, 0x61, 0x62, 0x63, 0x31, 0x32, 0x33]),
         ip_address = lit ''1.2.3.4'', user_agent = replicate 200 77,
         timestamp = isoformat (mk_datetime 2024 2 10 9 5 0 1234)\<rparr>]
   \<and> journal (snd (verify_token init_database (Some (lit ''d2d_abc123''))
                     (mk_datetime 2024 2 10 9 5 0 1234))) =
       [Connect,
        Execute (SelectExpires
          (hexlify (sha256 [0x64, 0x32, 0x64, 0x5f, 0x61, 0x62, 0x63, 0x31, 0x32, 0x33]))),
        Close]"
proof -
  let ?t = "lit ''d2d_abc123''"
  let ?ip = "lit ''1.2.3.4''"
  let ?now = "mk_datetime 2024 2 10 9 5 0 1234"
  let ?l = "log_login init_database ?t ?ip (Some (replicate 250 77)) ?now"
  have enc: "encodable ?ip" "encodable (replicate 200 77)"
    by (simp_all add: encodable_def scalar_value_def lit_def list_all_iff)
  have l: "?l = (Inr (), snd ?l)"
    using enc
    by (simp add: log_login_eq [OF hash_token_example] Let_def init_database_def max_rowid_def)
  have ne: "?t \<noteq> []" by (simp add: lit_def)
  have pre: "startswith ?t (lit ''d2d_'')" by (simp add: startswith_def lit_def)
  from log_login_row [OF l, of init_database ?now] obtain h where
    h: "hash_token ?t = Inr h" and
    r: "logins (snd ?l) = logins init_database @
               [\<lparr>login_id = Suc (logins_seq init_database), token_hash = h, ip_address = ?ip,
                 user_agent = take 200 (case Some (replicate 250 77) of None \<Rightarrow> [] | Some x \<Rightarrow> x),
                 timestamp = isoformat ?now\<rparr>]" and
    j: "?t \<noteq> [] \<and> startswith ?t (lit ''d2d_'') \<longrightarrow>
          journal (snd (verify_token init_database (Some ?t) ?now)) =
            journal init_database @ [Connect, Execute (SelectExpires h), Close]"
    by blast
  have hh: "h = hexlify (sha256 [0x64, 0x32, 0x64, 0x5f, 0x61, 0x62, 0x63, 0x31, 0x32, 0x33])"
    using h by (simp add: hash_token_example)
  show ?thesis
    using l ne pre r j by (simp add: hh init_database_def)
qed




end
